theory Spec2Isabelle
  imports Main
begin

section \<open>Types and the capability classifier\<close>

text \<open>
  The header classifies a C++ type \<open>T\<close> by four compile-time probes and renders a value
  by the category found. A type is modelled by what the probes can see of it:
  \<^item> whether \<open>std::ostream << const T&\<close> is well-formed (the flag of every constructor);
  \<^item> whether it is a specialisation \<open>std::pair<T1, T2>\<close> or \<open>std::tuple<T...>\<close>;
  \<^item> whether \<open>std::begin\<close>/\<open>std::end\<close> give input iterators (a range of some element type).
  The stream insertion operator is independent of the shape: \<open>std::string\<close> is a range of
  \<open>char\<close> with an operator, \<open>std::vector<int>\<close> a range without one.
\<close>

datatype ctype =
    Plain bool
  | StdPair bool ctype ctype
  | StdTuple bool "ctype list"
  | Range bool ctype

text \<open>
  \<open>enum class PrintableCategory\<close>, in the order of the source. The enumerator \<open>Pair\<close> is
  written \<open>PairCat\<close>: \<open>Pair\<close> is the pairing constructor of HOL.
\<close>

datatype PrintableCategory = Unprintable | Iteratable | PairCat | Tuple | Streamable

fun isStreamable :: "ctype \<Rightarrow> bool" where
  "isStreamable (Plain op) = op"
| "isStreamable (StdPair op _ _) = op"
| "isStreamable (StdTuple op _) = op"
| "isStreamable (Range op _) = op"

fun isPair :: "ctype \<Rightarrow> bool" where
  "isPair (StdPair _ _ _) = True"
| "isPair _ = False"

fun isTuple :: "ctype \<Rightarrow> bool" where
  "isTuple (StdTuple _ _) = True"
| "isTuple _ = False"

fun isIteratable :: "ctype \<Rightarrow> bool" where
  "isIteratable (Range _ _) = True"
| "isIteratable _ = False"

text \<open>
  \<open>getPrintableCategory<T>()\<close>: the conditional chain of the source over the outcomes of
  the four probes, and the chain at the probes of \<open>T\<close>.
\<close>

definition category_of_probes :: "bool \<Rightarrow> bool \<Rightarrow> bool \<Rightarrow> bool \<Rightarrow> PrintableCategory" where
  "category_of_probes streamable pair tuple iteratable =
     (if streamable then Streamable
      else if pair then PairCat
      else if tuple then Tuple
      else if iteratable then Iteratable
      else Unprintable)"

definition getPrintableCategory :: "ctype \<Rightarrow> PrintableCategory" where
  "getPrintableCategory T =
     category_of_probes (isStreamable T) (isPair T) (isTuple T) (isIteratable T)"

text \<open>
  The precedence order as the specification words it, and the shape each category asks of
  a type, given the outcomes of the probes; \<open>Unprintable\<close> asks nothing, it is what is left.
\<close>

definition precedence :: "PrintableCategory list" where
  "precedence = [Streamable, PairCat, Tuple, Iteratable, Unprintable]"

fun satisfies :: "bool \<Rightarrow> bool \<Rightarrow> bool \<Rightarrow> bool \<Rightarrow> PrintableCategory \<Rightarrow> bool" where
  "satisfies streamable pair tuple iteratable Streamable = streamable"
| "satisfies streamable pair tuple iteratable PairCat = pair"
| "satisfies streamable pair tuple iteratable Tuple = tuple"
| "satisfies streamable pair tuple iteratable Iteratable = iteratable"
| "satisfies streamable pair tuple iteratable Unprintable = True"

section \<open>The output stream\<close>

text \<open>
  A \<open>std::ostream\<close> is the characters written to it so far and its formatting state. Of the
  state, the field width, the fill character, the adjustment and the error state decide
  what an insertion of characters writes; the base and the rest of the state (the other
  flags, the precision, the locale) are read and set by the \<open>operator<<\<close> of values.
  The stream's exception mask is empty, as \<open>basic_ios::init\<close> leaves it: setting an error
  bit throws nothing.
\<close>

record ios =
  width :: nat
  fill :: char
  adjust_left :: bool
  good :: bool
  basefield :: nat
  other :: nat

type_synonym ostream = "string \<times> ios"

text \<open>
  An \<open>operator<<\<close> reads the state, appends characters and leaves a state; \<open>emit\<close> applies
  it to a stream. What it writes and the state it leaves depend on the value and on the
  state it finds, and it is taken to write at the end of the stream: it does not move the
  put position.
\<close>

type_synonym inserter = "ios \<Rightarrow> string \<times> ios"

definition emit :: "inserter \<Rightarrow> ostream \<Rightarrow> ostream" where
  "emit ins stream =
     (case stream of (written, state) \<Rightarrow>
        (case ins state of (out, state') \<Rightarrow> (written @ out, state')))"

text \<open>
  The insertion that writes nothing, and two insertions one after the other: the second
  reads the state the first left.
\<close>

definition nothing :: inserter where
  "nothing state = ([], state)"

definition then_insert :: "inserter \<Rightarrow> inserter \<Rightarrow> inserter" where
  "then_insert i1 i2 state =
     (case i1 state of (out1, state1) \<Rightarrow>
        (case i2 state1 of (out2, state2) \<Rightarrow> (out1 @ out2, state2)))"

text \<open>
  \<open>stream << c\<close> and \<open>stream << "..."\<close> are formatted: when the stream is good the
  characters are padded with the fill character to the field width, on the left unless
  the adjustment is left, and the width is reset; when it is not good nothing is written.
  \<open>stream.write\<close> and \<open>stream.put\<close> are unformatted: they write the characters as they are
  when the stream is good.
\<close>

definition padded :: "ios \<Rightarrow> string \<Rightarrow> string" where
  "padded state s =
     (if length s < width state then
        (if adjust_left state then s @ replicate (width state - length s) (fill state)
         else replicate (width state - length s) (fill state) @ s)
      else s)"

definition formatted :: "string \<Rightarrow> inserter" where
  "formatted s state =
     (if good state then (padded state s, state\<lparr>width := 0\<rparr>) else ([], state))"

definition unformatted :: "string \<Rightarrow> inserter" where
  "unformatted s state = (if good state then (s, state) else ([], state))"

text \<open>A newly constructed \<open>std::stringstream\<close>, in the state \<open>basic_ios::init\<close> gives it.\<close>

definition ios_init :: ios where
  "ios_init = \<lparr>width = 0, fill = CHR '' '', adjust_left = False, good = True,
                basefield = 10, other = 0\<rparr>"

definition stringstream :: ostream where
  "stringstream = ([], ios_init)"

text \<open>
  Inserters of the standard library that the examples use: \<open>std::setw(n)\<close>, \<open>std::hex\<close>,
  and the \<open>int\<close> 255, written in the base of the stream. A string or a number in base ten
  is \<open>formatted\<close> with its characters.
\<close>

definition setw :: "nat \<Rightarrow> inserter" where
  "setw n state = ([], state\<lparr>width := n\<rparr>)"

definition hex :: inserter where
  "hex state = ([], state\<lparr>basefield := 16\<rparr>)"

definition int_255 :: inserter where
  "int_255 state =
     formatted (if basefield state = 16 then ''ff''
                else if basefield state = 8 then ''377'' else ''255'') state"

section \<open>Values\<close>

text \<open>
  A value carries what rendering can read of it: the \<open>operator<<\<close> of its type at this
  value (when its type has one), and its components. An empty range still has an element
  type, so \<open>RangeV\<close> keeps it.
\<close>

datatype val =
    Obj "inserter option"
  | PairV "inserter option" val val
  | TupleV "inserter option" "val list"
  | RangeV "inserter option" ctype "val list"

fun inserted :: "val \<Rightarrow> inserter option" where
  "inserted (Obj ins) = ins"
| "inserted (PairV ins _ _) = ins"
| "inserted (TupleV ins _) = ins"
| "inserted (RangeV ins _ _) = ins"

text \<open>The static type \<open>T\<close> that template argument deduction finds for an argument.\<close>

fun type_of :: "val \<Rightarrow> ctype" where
  "type_of (Obj ins) = Plain (ins \<noteq> None)"
| "type_of (PairV ins a b) = StdPair (ins \<noteq> None) (type_of a) (type_of b)"
| "type_of (TupleV ins xs) = StdTuple (ins \<noteq> None) (map type_of xs)"
| "type_of (RangeV ins E xs) = Range (ins \<noteq> None) E"


text \<open>
  What a call can end in besides returning: \<open>std::invalid_argument\<close> with its message, a
  failed \<open>assert\<close>, or a call of a function that no translation unit defines
  (\<open>printToStreamTagged\<close> for \<open>UnprintableTag\<close> is declared \<open>extern\<close> and defined nowhere).
  Every function returns the stream as it left it, with the failure if there was one. The
  \<open>operator<<\<close> of a value is taken to return.
\<close>

datatype failure = invalid_argument string | assertion_failed | not_instantiated

section \<open>Rendering\<close>

lemma size_elem_less: "x \<in> set xs \<Longrightarrow> size (x::val) < size_list size xs"
  by (induction xs) auto

lemma get_smaller:
  "0 < I \<Longrightarrow> \<not> length xs < I \<Longrightarrow> size ((xs::val list) ! (I - Suc 0)) < size_list size xs"
  by (rule size_elem_less, rule nth_mem) arith

text \<open>
  \<open>Impl::printToStream\<close> (the argument pack is a list; every \<open>stream << x\<close> is an
  insertion into the one stream, in the state the insertions before it left), the four \<open>printToStreamTagged\<close>
  overloads, \<open>printTupleHelper<Tuple, I, TupleSize>::print\<close> and the \<open>while\<close> loop of the
  \<open>IteratableTag\<close> overload (\<open>it\<close> is the rest of the range), as they run. The
  \<open>static_assert\<close> of \<open>Impl::printToStream\<close> does nothing at run time; it is part of
  template instantiation, below. \<open>std::get<I-1>\<close> past the end of a tuple is ill-formed, so
  no such instantiation runs.
\<close>

function (sequential)
    Impl_printToStream :: "ostream \<Rightarrow> val list \<Rightarrow> ostream \<times> failure option"
and printToStreamTagged :: "ostream \<Rightarrow> val \<Rightarrow> PrintableCategory \<Rightarrow> ostream \<times> failure option"
and printTupleHelper :: "ostream \<Rightarrow> val list \<Rightarrow> nat \<Rightarrow> nat \<Rightarrow> ostream \<times> failure option"
and printIteratable :: "ostream \<Rightarrow> val list \<Rightarrow> bool \<Rightarrow> ostream \<times> failure option"
where
  "Impl_printToStream stream [] = (stream, None)"
| "Impl_printToStream stream (arg # args) =
     (case printToStreamTagged stream arg (getPrintableCategory (type_of arg)) of
        (stream', None) \<Rightarrow> Impl_printToStream stream' args
      | (stream', Some e) \<Rightarrow> (stream', Some e))"
| "printToStreamTagged stream arg Streamable =
     (case inserted arg of
        Some ins \<Rightarrow> (emit ins stream, None)
      | None \<Rightarrow> (stream, Some not_instantiated))"
| "printToStreamTagged stream (PairV _ a b) PairCat =
     (case Impl_printToStream (emit (formatted ''('') stream) [a] of
        (s1, None) \<Rightarrow>
          (case Impl_printToStream (emit (formatted '', '') s1) [b] of
             (s2, None) \<Rightarrow> (emit (formatted '')'') s2, None)
           | (s2, Some e) \<Rightarrow> (s2, Some e))
      | (s1, Some e) \<Rightarrow> (s1, Some e))"
| "printToStreamTagged stream (TupleV _ xs) Tuple =
     (case printTupleHelper (emit (formatted ''('') stream) xs 1 (length xs) of
        (s1, None) \<Rightarrow> (emit (formatted '')'') s1, None)
      | (s1, Some e) \<Rightarrow> (s1, Some e))"
| "printToStreamTagged stream (RangeV _ _ xs) Iteratable =
     (case printIteratable (emit (formatted ''['') stream) xs True of
        (s1, None) \<Rightarrow> (emit (formatted '']'') s1, None)
      | (s1, Some e) \<Rightarrow> (s1, Some e))"
| "printToStreamTagged stream _ _ = (stream, Some not_instantiated)"
| "printTupleHelper stream xs I TupleSize =
     (if I = 0 \<or> length xs < I then (stream, Some not_instantiated)
      else if I = TupleSize then Impl_printToStream stream [xs ! (I - 1)]
      else (case Impl_printToStream stream [xs ! (I - 1)] of
              (s1, None) \<Rightarrow> printTupleHelper (emit (formatted '', '') s1) xs (I + 1) TupleSize
            | (s1, Some e) \<Rightarrow> (s1, Some e)))"
| "printIteratable stream [] firstpass = (stream, None)"
| "printIteratable stream (x # it) firstpass =
     (case Impl_printToStream (if firstpass then stream else emit (formatted '', '') stream) [x] of
        (s1, None) \<Rightarrow> printIteratable s1 it False
      | (s1, Some e) \<Rightarrow> (s1, Some e))"
  by pat_completeness auto
termination
proof (relation "inv_image (less_than <*lex*> less_than)
     (\<lambda>x. case x of
        Inl (Inl (s, args)) \<Rightarrow> (size_list size args, 1)
      | Inl (Inr (s, arg, tag)) \<Rightarrow> (size arg + 1, 0)
      | Inr (Inl (s, xs, I, N)) \<Rightarrow> (size_list size xs + 1, length xs + 1 - I)
      | Inr (Inr (s, xs, fp)) \<Rightarrow> (size_list size xs + 1, 0))")
  show "wf (inv_image (less_than <*lex*> less_than)
     (\<lambda>x. case x of
        Inl (Inl (s, args)) \<Rightarrow> (size_list size args, 1::nat)
      | Inl (Inr (s, arg, tag)) \<Rightarrow> (size arg + 1, 0)
      | Inr (Inl (s, xs, I, N)) \<Rightarrow> (size_list size xs + 1, length xs + 1 - I)
      | Inr (Inr (s, xs, fp)) \<Rightarrow> (size_list size xs + 1, 0)))"
    by (intro wf_inv_image wf_lex_prod wf_less_than)
qed (auto simp: get_smaller)

text \<open>The public \<open>Aux::printToStream\<close> and \<open>Aux::toString\<close> (a fresh \<open>std::stringstream\<close>).\<close>

definition printToStream :: "ostream \<Rightarrow> val list \<Rightarrow> ostream \<times> failure option" where
  "printToStream stream args = Impl_printToStream stream args"

definition toString :: "val list \<Rightarrow> failure + string" where
  "toString args =
     (case printToStream stringstream args of
        ((written, state), None) \<Rightarrow> Inr written
      | (stream, Some e) \<Rightarrow> Inl e)"

section \<open>Template instantiation\<close>







section \<open>Format strings\<close>

text \<open>The three messages of \<open>std::invalid_argument\<close>, as the source spells them.\<close>

definition more_arguments :: string where
  "more_arguments = ''formatstring requests more arguments then provided''"

definition unmatched_percent :: string where
  "unmatched_percent = ''formatstrings must not end on unmatched '' @ [CHR 0x27, CHR ''%'', CHR 0x27]"

definition illegal_specifier :: string where
  "illegal_specifier = ''formatstring contains illegal format-specifier''"

text \<open>
  \<open>printFormatPartToStream\<close>: an iterator into the format string is the rest of the string
  from it to \<open>end\<close>. \<open>printFormatPartLoop\<close> is the \<open>while (true)\<close> loop: \<open>std::find\<close> splits
  the rest at the next percent sign, and the part before it is written with
  \<open>stream.write\<close>, unformatted.
\<close>

function printFormatPartLoop :: "ostream \<Rightarrow> string \<Rightarrow> ostream \<times> (failure + string \<times> bool)" where
  "printFormatPartLoop stream begin =
     (let nextPercent = dropWhile (\<lambda>c. c \<noteq> CHR ''%'') begin;
          stream1 = emit (unformatted (takeWhile (\<lambda>c. c \<noteq> CHR ''%'') begin)) stream
      in case nextPercent of
           [] \<Rightarrow> (stream1, Inr ([], False))
         | _ # begin1 \<Rightarrow>
             (case begin1 of
                [] \<Rightarrow> (stream1, Inl (invalid_argument unmatched_percent))
              | c # begin2 \<Rightarrow>
                  if c = CHR ''%'' then printFormatPartLoop (emit (unformatted ''%'') stream1) begin2
                  else if c = CHR ''s'' then (stream1, Inr (begin2, True))
                  else (stream1, Inl (invalid_argument illegal_specifier))))"
  by pat_completeness auto
termination
proof (relation "measure (\<lambda>(stream, begin). length begin)")
  show "wf (measure (\<lambda>(stream, begin). length begin))" by simp
next
  fix stream :: ostream and "begin" :: string and nextPercent stream1 p begin1 c begin2
  assume "nextPercent = dropWhile (\<lambda>c. c \<noteq> CHR ''%'') begin"
    and "nextPercent = p # begin1" and "begin1 = c # begin2"
  then have "dropWhile (\<lambda>c. c \<noteq> CHR ''%'') begin = p # c # begin2"
    by (simp only:)
  then have "length (dropWhile (\<lambda>c. c \<noteq> CHR ''%'') begin) = Suc (Suc (length begin2))"
    by (simp only: length_Cons)
  moreover have "length (dropWhile (\<lambda>c. c \<noteq> CHR ''%'') begin) \<le> length begin"
    by (rule length_dropWhile_le)
  ultimately show "((emit (unformatted ''%'') stream1, begin2), (stream, begin))
      \<in> measure (\<lambda>(stream, begin). length begin)"
    by simp
qed

definition printFormatPartToStream :: "ostream \<Rightarrow> string \<Rightarrow> ostream \<times> (failure + string \<times> bool)" where
  "printFormatPartToStream stream begin =
     (if begin = [] then (stream, Inr ([], False)) else printFormatPartLoop stream begin)"

text \<open>
  \<open>Impl::printToStreamF\<close>, the overload without arguments and the variadic one, then the
  public \<open>Aux::printToStreamF\<close> and \<open>Aux::toStringF\<close>.
\<close>

fun Impl_printToStreamF :: "ostream \<Rightarrow> string \<Rightarrow> val list \<Rightarrow> ostream \<times> failure option" where
  "Impl_printToStreamF stream format_begin [] =
     (case printFormatPartToStream stream format_begin of
        (stream1, Inl e) \<Rightarrow> (stream1, Some e)
      | (stream1, Inr (it, printArgument)) \<Rightarrow>
          if printArgument then (stream1, Some (invalid_argument more_arguments))
          else (stream1, None))"
| "Impl_printToStreamF stream format_begin (arg # args) =
     (case printFormatPartToStream stream format_begin of
        (stream1, Inl e) \<Rightarrow> (stream1, Some e)
      | (stream1, Inr (it, printArgument)) \<Rightarrow>
          if printArgument then
            (case Impl_printToStream stream1 [arg] of
               (stream2, None) \<Rightarrow> Impl_printToStreamF stream2 it args
             | (stream2, Some e) \<Rightarrow> (stream2, Some e))
          else if it = [] then (stream1, None)
          else (stream1, Some assertion_failed))"

definition printToStreamF :: "ostream \<Rightarrow> string \<Rightarrow> val list \<Rightarrow> ostream \<times> failure option" where
  "printToStreamF stream format args = Impl_printToStreamF stream format args"

definition toStringF :: "string \<Rightarrow> val list \<Rightarrow> failure + string" where
  "toStringF format args =
     (case printToStreamF stringstream format args of
        ((written, state), None) \<Rightarrow> Inr written
      | (stream, Some e) \<Rightarrow> Inl e)"

section \<open>The specification's words\<close>

text \<open>
  A template as the specification reads it: literal characters, \<open>%%\<close> and \<open>%s\<close>, read from
  left to right. A template is well-formed when it reads so to its end.
\<close>

datatype token = Literal char | Escape | Placeholder

fun tokens :: "string \<Rightarrow> token list option" where
  "tokens [] = Some []"
| "tokens (c # cs) =
     (if c \<noteq> CHR ''%'' then map_option ((#) (Literal c)) (tokens cs)
      else (case cs of
              [] \<Rightarrow> None
            | d # ds \<Rightarrow>
                if d = CHR ''%'' then map_option ((#) Escape) (tokens ds)
                else if d = CHR ''s'' then map_option ((#) Placeholder) (tokens ds)
                else None))"

text \<open>
  Read character by character, "every percent sign is immediately followed by \<open>s\<close> or
  \<open>%\<close>" is a stronger condition: it refuses \<open>100%% done\<close>, where a space follows the second
  percent sign.
\<close>

fun every_percent_followed :: "string \<Rightarrow> bool" where
  "every_percent_followed [] = True"
| "every_percent_followed [c] = (c \<noteq> CHR ''%'')"
| "every_percent_followed (c # d # cs) =
     ((c = CHR ''%'' \<longrightarrow> d = CHR ''s'' \<or> d = CHR ''%'') \<and> every_percent_followed (d # cs))"

definition placeholders :: "token list \<Rightarrow> nat" where
  "placeholders ts = length (filter (\<lambda>t. t = Placeholder) ts)"

text \<open>
  The text a template stands for, given the rendered arguments: the \<open>i\<close>-th placeholder
  (counted from \<open>0\<close>) is replaced by the \<open>i\<close>-th rendered argument.
\<close>

fun expand :: "token list \<Rightarrow> nat \<Rightarrow> string list \<Rightarrow> string" where
  "expand [] i rs = []"
| "expand (Literal c # ts) i rs = c # expand ts i rs"
| "expand (Escape # ts) i rs = CHR ''%'' # expand ts i rs"
| "expand (Placeholder # ts) i rs = rs ! i @ expand ts (Suc i) rs"

text \<open>\<open>join(", ", rs)\<close>.\<close>

fun joined :: "string list \<Rightarrow> string" where
  "joined [] = []"
| "joined [r] = r"
| "joined (r # rs) = r @ '', '' @ joined rs"

text \<open>
  The malformed templates too have specifiers, read as the interpreter does, a percent
  sign with the character after it: \<open>specifiers\<close> lists those characters, and
  \<open>dangling\<close> says that the last percent sign has none.
\<close>

fun specifiers :: "string \<Rightarrow> char list" where
  "specifiers [] = []"
| "specifiers [c] = []"
| "specifiers (c # d # cs) = (if c = CHR ''%'' then d # specifiers cs else specifiers (d # cs))"

fun dangling :: "string \<Rightarrow> bool" where
  "dangling [] = False"
| "dangling [c] = (c = CHR ''%'')"
| "dangling (c # d # cs) = (if c = CHR ''%'' then dangling cs else dangling (d # cs))"

text \<open>
  Where interpretation stops. With \<open>n\<close> arguments the interpreter reads a prefix \<open>pre\<close> of
  the template \<open>t\<close>, of tokens \<open>ts\<close> with at most \<open>n\<close> placeholders, and stands before
  \<open>rest\<close>. It stops there when \<open>rest\<close> is empty, a lone percent sign, an illegal specifier,
  or a placeholder with the arguments exhausted; \<open>stop_outcome\<close> is how it then ends.
\<close>

definition reaches :: "string \<Rightarrow> nat \<Rightarrow> string \<Rightarrow> token list \<Rightarrow> string \<Rightarrow> bool" where
  "reaches t n pre ts rest \<longleftrightarrow> t = pre @ rest \<and> tokens pre = Some ts \<and> placeholders ts \<le> n"

fun stops :: "string \<Rightarrow> bool \<Rightarrow> bool" where
  "stops [] exhausted = True"
| "stops [c] exhausted = (c = CHR ''%'')"
| "stops (c # d # r) exhausted = (c = CHR ''%'' \<and> d \<noteq> CHR ''%'' \<and> (d = CHR ''s'' \<longrightarrow> exhausted))"

fun stop_outcome :: "string \<Rightarrow> failure option" where
  "stop_outcome [] = None"
| "stop_outcome [c] = Some (invalid_argument unmatched_percent)"
| "stop_outcome (c # d # r) =
     (if d = CHR ''s'' then Some (invalid_argument more_arguments)
      else Some (invalid_argument illegal_specifier))"

section \<open>Rendering is a sequence of insertions\<close>

text \<open>
  Whatever the stream, rendering a value applies one insertion to it, made of the
  insertions of the value's parts and of the punctuation in the order of the source, and
  whether it fails does not depend on the stream.
\<close>

declare printTupleHelper.simps [simp del]
declare printFormatPartLoop.simps [simp del]
declare Impl_printToStream.simps(2) [simp del]

lemma emit_nothing [simp]: "emit nothing s = s"
  by (simp add: emit_def nothing_def split: prod.split)

lemma emit_then [simp]: "emit (then_insert i1 i2) s = emit i2 (emit i1 s)"
  by (simp add: emit_def then_insert_def split: prod.split)

lemma emit_written: "\<exists>out state. emit ins s = (fst s @ out, state)"
  by (simp add: emit_def split: prod.split)

lemma get_in_set: "0 < I \<Longrightarrow> \<not> length xs < I \<Longrightarrow> xs ! (I - Suc 0) \<in> set xs"
  by (rule nth_mem) arith

lemma outcome_case_id [simp]:
  "(case r of (s, None) \<Rightarrow> (s, None) | (s, Some e) \<Rightarrow> (s, Some (e::failure))) = r"
  by (simp split: prod.split option.split)

lemma printToStream_single:
  "Impl_printToStream s [v] = printToStreamTagged s v (getPrintableCategory (type_of v))"
  by (simp add: Impl_printToStream.simps(2) split: prod.split option.split)

lemma printIteratable_emits:
  assumes "\<forall>x\<in>set xs. \<exists>t e. \<forall>s. Impl_printToStream s [x] = (emit t s, e)"
  shows "\<exists>t e. \<forall>s. printIteratable s xs fp = (emit t s, e)"
  using assms
proof (induction xs arbitrary: fp)
  case Nil
  have "\<forall>s. printIteratable s [] fp = (emit nothing s, None)" by simp
  then show ?case by blast
next
  case (Cons x xs)
  from Cons.prems obtain t e where hx: "\<And>s. Impl_printToStream s [x] = (emit t s, e)"
    by auto
  from Cons.IH Cons.prems obtain t' e' where
    hxs: "\<And>s. printIteratable s xs False = (emit t' s, e')"
    by (metis list.set_intros(2))
  define sep where "sep = (if fp then nothing else formatted '', '')"
  have first: "(if fp then s else emit (formatted '', '') s) = emit sep s" for s
    by (simp add: sep_def)
  show ?case
  proof (cases e)
    case None
    have "\<forall>s. printIteratable s (x # xs) fp =
            (emit (then_insert (then_insert sep t) t') s, e')"
      by (simp add: first hx hxs None)
    then show ?thesis by blast
  next
    case (Some f)
    have "\<forall>s. printIteratable s (x # xs) fp = (emit (then_insert sep t) s, Some f)"
      by (simp add: first hx Some)
    then show ?thesis by blast
  qed
qed

lemma printTupleHelper_emits:
  assumes "\<forall>x\<in>set xs. \<exists>t e. \<forall>s. Impl_printToStream s [x] = (emit t s, e)"
  shows "\<exists>t e. \<forall>s. printTupleHelper s xs I N = (emit t s, e)"
proof (induction "length xs + 1 - I" arbitrary: I)
  case 0
  then have "I = 0 \<or> length xs < I" by arith
  then have "\<forall>s. printTupleHelper s xs I N = (emit nothing s, Some not_instantiated)"
    by (simp add: printTupleHelper.simps)
  then show ?case by blast
next
  case (Suc k)
  show ?case
  proof (cases "I = 0 \<or> length xs < I")
    case True
    then have "\<forall>s. printTupleHelper s xs I N = (emit nothing s, Some not_instantiated)"
      by (simp add: printTupleHelper.simps)
    then show ?thesis by blast
  next
    case False
    then have "xs ! (I - 1) \<in> set xs" by (simp add: get_in_set)
    with assms obtain t e where
      hx: "\<And>s. Impl_printToStream s [xs ! (I - 1)] = (emit t s, e)"
      by blast
    from Suc have "k = length xs + 1 - (I + 1)" by arith
    from Suc.hyps(1) [OF this] obtain t' e' where
      hrest: "\<And>s. printTupleHelper s xs (I + 1) N = (emit t' s, e')"
      by blast
    show ?thesis
    proof (cases "I = N")
      case True
      with False hx have "\<forall>s. printTupleHelper s xs I N = (emit t s, e)"
        by (simp add: printTupleHelper.simps [of _ xs N N])
      then show ?thesis by blast
    next
      case neq: False
      show ?thesis
      proof (cases e)
        case None
        with False neq hx hrest
        have "\<forall>s. printTupleHelper s xs I N =
                (emit (then_insert (then_insert t (formatted '', '')) t') s, e')"
          by (simp add: printTupleHelper.simps [of _ xs I N])
        then show ?thesis by blast
      next
        case (Some f)
        with False neq hx
        have "\<forall>s. printTupleHelper s xs I N = (emit t s, Some f)"
          by (simp add: printTupleHelper.simps [of _ xs I N])
        then show ?thesis by blast
      qed
    qed
  qed
qed

lemma category_simps [simp]:
  "getPrintableCategory (Plain b) = (if b then Streamable else Unprintable)"
  "getPrintableCategory (StdPair b T1 T2) = (if b then Streamable else PairCat)"
  "getPrintableCategory (StdTuple b Ts) = (if b then Streamable else Tuple)"
  "getPrintableCategory (Range b E) = (if b then Streamable else Iteratable)"
  by (simp_all add: getPrintableCategory_def category_of_probes_def)

lemma printToStream_shapes:
  "Impl_printToStream s [Obj None] = (s, Some not_instantiated)"
  "Impl_printToStream s [PairV None a b] = printToStreamTagged s (PairV None a b) PairCat"
  "Impl_printToStream s [TupleV None xs] = printToStreamTagged s (TupleV None xs) Tuple"
  "Impl_printToStream s [RangeV None E xs] = printToStreamTagged s (RangeV None E xs) Iteratable"
  by (simp_all add: printToStream_single)

lemma printToStream_Streamable:
  "inserted v = Some ins \<Longrightarrow> Impl_printToStream s [v] = (emit ins s, None)"
  by (cases v) (simp_all add: printToStream_single)

lemma printToStream_emits:
  "\<exists>t e. \<forall>s. Impl_printToStream s [v] = (emit t s, e)"
proof (induction v)
  case (Obj sh)
  show ?case
  proof (cases sh)
    case None
    then have "\<forall>s. Impl_printToStream s [Obj sh] = (emit nothing s, Some not_instantiated)"
      by (simp add: printToStream_shapes)
    then show ?thesis by blast
  next
    case (Some ins)
    then have "\<forall>s. Impl_printToStream s [Obj sh] = (emit ins s, None)"
      by (simp add: printToStream_Streamable)
    then show ?thesis by blast
  qed
next
  case (PairV sh a b)
  show ?case
  proof (cases sh)
    case (Some ins)
    then have "\<forall>s. Impl_printToStream s [PairV sh a b] = (emit ins s, None)"
      by (simp add: printToStream_Streamable)
    then show ?thesis by blast
  next
    case None
    from PairV obtain ta ea tb eb where
      ha: "\<And>s. Impl_printToStream s [a] = (emit ta s, ea)" and
      hb: "\<And>s. Impl_printToStream s [b] = (emit tb s, eb)"
      by blast
    have step: "Impl_printToStream s [PairV sh a b] =
      (case Impl_printToStream (emit (formatted ''('') s) [a] of
        (s1, None) \<Rightarrow>
          (case Impl_printToStream (emit (formatted '', '') s1) [b] of
             (s2, None) \<Rightarrow> (emit (formatted '')'') s2, None)
           | (s2, Some e) \<Rightarrow> (s2, Some e))
      | (s1, Some e) \<Rightarrow> (s1, Some e))" for s
      unfolding None printToStream_shapes by (simp only: printToStreamTagged.simps)
    show ?thesis
    proof (cases ea)
      case (Some f)
      have "\<forall>s. Impl_printToStream s [PairV sh a b] =
              (emit (then_insert (formatted ''('') ta) s, Some f)"
        by (simp add: step ha Some)
      then show ?thesis by blast
    next
      case na: None
      show ?thesis
      proof (cases eb)
        case (Some f)
        have "\<forall>s. Impl_printToStream s [PairV sh a b] =
              (emit (then_insert (then_insert (then_insert (formatted ''('') ta)
                 (formatted '', '')) tb) s, Some f)"
          by (simp add: step ha hb na Some)
        then show ?thesis by blast
      next
        case None
        have "\<forall>s. Impl_printToStream s [PairV sh a b] =
              (emit (then_insert (then_insert (then_insert (then_insert (formatted ''('') ta)
                 (formatted '', '')) tb) (formatted '')'')) s, None)"
          by (simp add: step ha hb na None)
        then show ?thesis by blast
      qed
    qed
  qed
next
  case (TupleV sh xs)
  show ?case
  proof (cases sh)
    case (Some ins)
    then have "\<forall>s. Impl_printToStream s [TupleV sh xs] = (emit ins s, None)"
      by (simp add: printToStream_Streamable)
    then show ?thesis by blast
  next
    case None
    from TupleV have "\<forall>x\<in>set xs. \<exists>t e. \<forall>s. Impl_printToStream s [x] = (emit t s, e)"
      by blast
    from printTupleHelper_emits [OF this] obtain t e where
      h: "\<And>s. printTupleHelper s xs (Suc 0) (length xs) = (emit t s, e)"
      by blast
    have "\<forall>s. Impl_printToStream s [TupleV sh xs] =
            (emit (then_insert (then_insert (formatted ''('') t)
               (case e of None \<Rightarrow> formatted '')'' | Some _ \<Rightarrow> nothing)) s, e)"
      unfolding None printToStream_shapes by (simp add: h split: option.split)
    then show ?thesis by blast
  qed
next
  case (RangeV sh E xs)
  show ?case
  proof (cases sh)
    case (Some ins)
    then have "\<forall>s. Impl_printToStream s [RangeV sh E xs] = (emit ins s, None)"
      by (simp add: printToStream_Streamable)
    then show ?thesis by blast
  next
    case None
    from RangeV have "\<forall>x\<in>set xs. \<exists>t e. \<forall>s. Impl_printToStream s [x] = (emit t s, e)"
      by blast
    from printIteratable_emits [OF this] obtain t e where
      h: "\<And>s. printIteratable s xs True = (emit t s, e)"
      by blast
    have "\<forall>s. Impl_printToStream s [RangeV sh E xs] =
            (emit (then_insert (then_insert (formatted ''['') t)
               (case e of None \<Rightarrow> formatted '']'' | Some _ \<Rightarrow> nothing)) s, e)"
      unfolding None printToStream_shapes by (simp add: h split: option.split)
    then show ?thesis by blast
  qed
qed


section \<open>Rendering in the state of a new stream\<close>

text \<open>
  In the state of a new stream an insertion of characters appends them and leaves the
  state. A value that leaves the state as it found it, written alone to a new stream, does
  so after any characters; ranges and argument lists of such values are written element
  by element.
\<close>

lemma width_reset [simp]: "ios_init\<lparr>width := 0\<rparr> = ios_init"
  by (simp add: ios_init_def)

lemma good_init [simp]: "good ios_init"
  by (simp add: ios_init_def)

lemma width_init [simp]: "width ios_init = 0"
  by (simp add: ios_init_def)

lemma emit_formatted_init [simp]:
  "emit (formatted txt) (w, ios_init) = (w @ txt, ios_init)"
  by (simp add: emit_def formatted_def padded_def)

lemma emit_unformatted_good:
  "good f \<Longrightarrow> emit (unformatted txt) (w, f) = (w @ txt, f)"
  by (simp add: emit_def unformatted_def)

lemma emit_unformatted_init [simp]:
  "emit (unformatted txt) (w, ios_init) = (w @ txt, ios_init)"
  by (simp add: emit_unformatted_good)

lemma emit_unformatted_Nil [simp]: "emit (unformatted []) s = s"
  by (simp add: emit_def unformatted_def split: prod.split)

lemma emit_unformatted_append:
  "emit (unformatted (a @ b)) s = emit (unformatted b) (emit (unformatted a) s)"
  by (simp add: emit_def unformatted_def split: prod.split)

lemma emit_init:
  assumes "emit t ([], ios_init) = (r, f)"
  shows "emit t (w, ios_init) = (w @ r, f)"
  using assms by (simp add: emit_def split: prod.splits)

lemma returns_everywhere:
  assumes "snd (Impl_printToStream s [v]) = None"
  shows "snd (Impl_printToStream s' [v]) = None"
proof -
  obtain t e where h: "\<And>s. Impl_printToStream s [v] = (emit t s, e)"
    using printToStream_emits by blast
  from assms h [of s] have "e = None" by simp
  with h [of s'] show ?thesis by simp
qed

lemma toString_returns:
  assumes "toString [v] = Inr r"
  shows "snd (Impl_printToStream s [v]) = None"
proof -
  from assms have "snd (Impl_printToStream stringstream [v]) = None"
    by (simp add: toString_def printToStream_def split: prod.splits option.splits)
  then show ?thesis by (rule returns_everywhere)
qed

lemma plain_in_stream:
  assumes "printToStream stringstream [v] = ((r, ios_init), None)"
  shows "Impl_printToStream (w, ios_init) [v] = ((w @ r, ios_init), None)"
proof -
  obtain t e where h: "\<And>s. Impl_printToStream s [v] = (emit t s, e)"
    using printToStream_emits by blast
  from assms h [of "([], ios_init)"] have "emit t ([], ios_init) = (r, ios_init)" and "e = None"
    by (simp_all add: printToStream_def stringstream_def)
  with h [of "(w, ios_init)"] show ?thesis by (simp add: emit_init)
qed

lemma joined_Cons: "joined (r # rs) = r @ concat (map ((@) '', '') rs)"
  by (induction rs arbitrary: r) simp_all

lemma printIteratable_rest:
  assumes "list_all2 (\<lambda>x r. \<forall>w. Impl_printToStream (w, ios_init) [x] = ((w @ r, ios_init), None)) xs rs"
  shows "printIteratable (w, ios_init) xs False = ((w @ concat (map ((@) '', '') rs), ios_init), None)"
  using assms by (induction arbitrary: w rule: list_all2_induct) simp_all

lemma printIteratable_first:
  assumes "list_all2 (\<lambda>x r. \<forall>w. Impl_printToStream (w, ios_init) [x] = ((w @ r, ios_init), None)) xs rs"
  shows "printIteratable (w, ios_init) xs True = ((w @ joined rs, ios_init), None)"
proof (cases xs)
  case Nil
  with assms show ?thesis by simp
next
  case (Cons x xs')
  with assms obtain r rs' where rs: "rs = r # rs'"
    and hx: "\<And>w. Impl_printToStream (w, ios_init) [x] = ((w @ r, ios_init), None)"
    and rest: "list_all2 (\<lambda>x r. \<forall>w. Impl_printToStream (w, ios_init) [x] = ((w @ r, ios_init), None)) xs' rs'"
    by (auto simp: list_all2_Cons1)
  show ?thesis
    unfolding Cons rs joined_Cons by (simp add: hx printIteratable_rest [OF rest])
qed

lemma printToStream_all:
  assumes "list_all2 (\<lambda>x r. \<forall>w. Impl_printToStream (w, ios_init) [x] = ((w @ r, ios_init), None)) args rs"
  shows "Impl_printToStream (w, ios_init) args = ((w @ concat rs, ios_init), None)"
  using assms
proof (induction arbitrary: w rule: list_all2_induct)
  case Nil
  show ?case by simp
next
  case (Cons x xs r rs)
  from Cons(1) have "printToStreamTagged (w, ios_init) x (getPrintableCategory (type_of x))
      = ((w @ r, ios_init), None)"
    by (simp add: printToStream_single)
  with Cons show ?case
    by (simp add: Impl_printToStream.simps(2))
qed

lemma rendered_all:
  assumes "list_all2 (\<lambda>x r. printToStream stringstream [x] = ((r, ios_init), None)) xs rs"
  shows "list_all2 (\<lambda>x r. \<forall>w. Impl_printToStream (w, ios_init) [x] = ((w @ r, ios_init), None)) xs rs"
  using assms by (rule list_all2_mono) (simp add: plain_in_stream)

lemma toString_eq:
  "toString args = Inr r \<longleftrightarrow> (\<exists>f. Impl_printToStream ([], ios_init) args = ((r, f), None))"
  by (simp add: toString_def printToStream_def stringstream_def split: prod.split option.split)

lemma returned_all:
  assumes "list_all2 (\<lambda>x r. toString [x] = Inr r) xs rs"
  shows "\<forall>x\<in>set xs. \<forall>s. snd (Impl_printToStream s [x]) = None"
proof
  fix x assume "x \<in> set xs"
  with assms obtain r where "toString [x] = Inr r"
    by (auto simp: in_set_conv_nth list_all2_conv_all_nth)
  then show "\<forall>s. snd (Impl_printToStream s [x]) = None"
    by (simp add: toString_returns)
qed




section \<open>A call that builds renders\<close>









section \<open>Interpreting a format string\<close>

text \<open>
  One step of \<open>printFormatPartToStream\<close> for each way a format string can begin, then the
  same steps for \<open>Impl::printToStreamF\<close>. A well-formed prefix is read to its end, and
  every template has a first place where interpretation stops.
\<close>

lemma messages_distinct:
  "more_arguments \<noteq> unmatched_percent" "more_arguments \<noteq> illegal_specifier"
  "unmatched_percent \<noteq> illegal_specifier" "unmatched_percent \<noteq> more_arguments"
  "illegal_specifier \<noteq> more_arguments" "illegal_specifier \<noteq> unmatched_percent"
  by (simp_all add: more_arguments_def unmatched_percent_def illegal_specifier_def)

lemma loop_Nil: "printFormatPartLoop s [] = (s, Inr ([], False))"
  by (simp add: printFormatPartLoop.simps [of s "[]"])

lemma emit_unformatted_Cons:
  "emit (unformatted cs) (emit (unformatted [c]) s) = emit (unformatted (c # cs)) s"
  using emit_unformatted_append [of "[c]" cs s] by simp

lemma loop_literal:
  "c \<noteq> CHR ''%'' \<Longrightarrow>
   printFormatPartLoop s (c # cs) = printFormatPartLoop (emit (unformatted [c]) s) cs"
  by (simp add: printFormatPartLoop.simps [of s "c # cs"]
      printFormatPartLoop.simps [of "emit (unformatted [c]) s" cs] emit_unformatted_Cons)

lemma loop_trailing:
  "printFormatPartLoop s ''%'' = (s, Inl (invalid_argument unmatched_percent))"
  by (simp add: printFormatPartLoop.simps [of s "''%''"])

lemma loop_escape:
  "printFormatPartLoop s (CHR ''%'' # CHR ''%'' # cs) =
     printFormatPartLoop (emit (unformatted ''%'') s) cs"
  by (simp add: printFormatPartLoop.simps [of s "CHR ''%'' # CHR ''%'' # cs"])

lemma loop_placeholder:
  "printFormatPartLoop s (CHR ''%'' # CHR ''s'' # cs) = (s, Inr (cs, True))"
  by (simp add: printFormatPartLoop.simps [of s "CHR ''%'' # CHR ''s'' # cs"])

lemma loop_illegal:
  "d \<noteq> CHR ''%'' \<Longrightarrow> d \<noteq> CHR ''s'' \<Longrightarrow>
   printFormatPartLoop s (CHR ''%'' # d # cs) = (s, Inl (invalid_argument illegal_specifier))"
  by (simp add: printFormatPartLoop.simps [of s "CHR ''%'' # d # cs"])

lemma printFormatPartToStream_loop:
  "printFormatPartToStream s fmt = printFormatPartLoop s fmt"
  by (simp add: printFormatPartToStream_def loop_Nil)

lemma loop_end:
  "printFormatPartLoop s fmt = (s', Inr (it, False)) \<Longrightarrow> it = []"
proof (induction fmt arbitrary: s rule: tokens.induct)
  case 1
  then show ?case by (simp add: loop_Nil)
next
  case (2 c cs)
  show ?case
  proof (cases "c = CHR ''%''")
    case False
    with 2 show ?thesis by (simp add: loop_literal)
  next
    case True
    show ?thesis
    proof (cases cs)
      case Nil
      with True 2 show ?thesis by (simp add: loop_trailing)
    next
      case (Cons d ds)
      with True 2 show ?thesis
        by (cases "d = CHR ''%''"; cases "d = CHR ''s''")
           (simp_all add: loop_escape loop_placeholder loop_illegal)
    qed
  qed
qed

lemma F_Nil: "Impl_printToStreamF s [] args = (s, None)"
  by (cases args) (simp_all add: printFormatPartToStream_loop loop_Nil)

lemma F_trailing:
  "Impl_printToStreamF s ''%'' args = (s, Some (invalid_argument unmatched_percent))"
  by (cases args) (simp_all add: printFormatPartToStream_loop loop_trailing)

lemma F_illegal:
  "d \<noteq> CHR ''%'' \<Longrightarrow> d \<noteq> CHR ''s'' \<Longrightarrow>
   Impl_printToStreamF s (CHR ''%'' # d # cs) args = (s, Some (invalid_argument illegal_specifier))"
  by (cases args) (simp_all add: printFormatPartToStream_loop loop_illegal)

lemma F_literal:
  "c \<noteq> CHR ''%'' \<Longrightarrow>
   Impl_printToStreamF s (c # cs) args = Impl_printToStreamF (emit (unformatted [c]) s) cs args"
  by (cases args) (simp_all add: printFormatPartToStream_loop loop_literal)

lemma F_escape:
  "Impl_printToStreamF s (CHR ''%'' # CHR ''%'' # cs) args =
     Impl_printToStreamF (emit (unformatted ''%'') s) cs args"
  by (cases args) (simp_all add: printFormatPartToStream_loop loop_escape)

lemma F_missing:
  "Impl_printToStreamF s (CHR ''%'' # CHR ''s'' # cs) [] = (s, Some (invalid_argument more_arguments))"
  by (simp add: printFormatPartToStream_loop loop_placeholder)

lemma F_placeholder:
  "Impl_printToStreamF s (CHR ''%'' # CHR ''s'' # cs) (a # args) =
     (case Impl_printToStream s [a] of
        (s2, None) \<Rightarrow> Impl_printToStreamF s2 cs args
      | (s2, Some e) \<Rightarrow> (s2, Some e))"
  by (simp add: printFormatPartToStream_loop loop_placeholder)

declare Impl_printToStreamF.simps [simp del]

lemma expand_shift: "expand ts (Suc i) (r # rs) = expand ts i rs"
  by (induction ts i rs rule: expand.induct) simp_all

lemma placeholders_simps [simp]:
  "placeholders [] = 0"
  "placeholders (Literal c # ts) = placeholders ts"
  "placeholders (Escape # ts) = placeholders ts"
  "placeholders (Placeholder # ts) = Suc (placeholders ts)"
  by (simp_all add: placeholders_def)

lemma tokens_simps:
  "c \<noteq> CHR ''%'' \<Longrightarrow> tokens (c # cs) = map_option ((#) (Literal c)) (tokens cs)"
  "tokens ''%'' = None"
  "tokens (CHR ''%'' # CHR ''%'' # cs) = map_option ((#) Escape) (tokens cs)"
  "tokens (CHR ''%'' # CHR ''s'' # cs) = map_option ((#) Placeholder) (tokens cs)"
  "d \<noteq> CHR ''%'' \<Longrightarrow> d \<noteq> CHR ''s'' \<Longrightarrow> tokens (CHR ''%'' # d # cs) = None"
  by simp_all

lemma every_percent_followed_tokens:
  "every_percent_followed t \<Longrightarrow> \<exists>ts. tokens t = Some ts"
proof (induction t rule: tokens.induct)
  case 1
  show ?case by simp
next
  case (2 c cs)
  show ?case
  proof (cases "c = CHR ''%''")
    case False
    from "2.prems" have "every_percent_followed cs" by (cases cs) simp_all
    from "2.IH"(1) [OF False this] False show ?thesis by auto
  next
    case True
    with "2.prems" obtain d ds where cs: "cs = d # ds" and d: "d = CHR ''s'' \<or> d = CHR ''%''"
      and rest: "every_percent_followed (d # ds)"
      by (cases cs) auto
    from rest have ds: "every_percent_followed ds" by (cases ds) simp_all
    from d show ?thesis
    proof
      assume s: "d = CHR ''s''"
      from "2.IH"(3) [OF _ cs _ s ds] True cs s show ?thesis by auto
    next
      assume p: "d = CHR ''%''"
      from "2.IH"(2) [OF _ cs p ds] True cs p show ?thesis by auto
    qed
  qed
qed

lemma written_trans:
  "fst s1 = fst s @ a \<Longrightarrow> fst s2 = fst s1 @ b \<Longrightarrow> \<exists>out. fst s2 = fst s @ out"
  by simp

lemma F_prefix:
  assumes "tokens pre = Some ts"
    and "\<forall>x\<in>set used. \<forall>s. snd (Impl_printToStream s [x]) = None"
    and "placeholders ts \<le> length used"
  shows "\<exists>s'. (\<exists>out. fst s' = fst s @ out)
           \<and> (\<forall>rest surplus. Impl_printToStreamF s (pre @ rest) (used @ surplus) =
                Impl_printToStreamF s' rest (drop (placeholders ts) used @ surplus))"
  using assms
proof (induction pre arbitrary: s ts used rule: tokens.induct)
  case 1
  then have "(\<exists>out. fst s = fst s @ out)
      \<and> (\<forall>rest surplus. Impl_printToStreamF s ([] @ rest) (used @ surplus) =
                Impl_printToStreamF s rest (drop (placeholders ts) used @ surplus))"
    by simp
  then show ?case by blast
next
  case (2 c cs)
  show ?case
  proof (cases "c = CHR ''%''")
    case False
    with "2.prems"(1) obtain ts' where ts: "tokens cs = Some ts'" "ts = Literal c # ts'"
      by auto
    from "2.prems"(3) ts have le: "placeholders ts' \<le> length used" by simp
    from "2.IH"(1) [OF False ts(1) "2.prems"(2) le, of "emit (unformatted [c]) s"]
    obtain s' out where s': "fst s' = fst (emit (unformatted [c]) s) @ out"
      "\<And>rest surplus. Impl_printToStreamF (emit (unformatted [c]) s) (cs @ rest) (used @ surplus) =
                Impl_printToStreamF s' rest (drop (placeholders ts') used @ surplus)"
      by blast
    obtain o1 f1 where "emit (unformatted [c]) s = (fst s @ o1, f1)"
      using emit_written by blast
    with s'(1) have "\<exists>out. fst s' = fst s @ out" by simp
    moreover from s'(2) False ts
    have "\<forall>rest surplus. Impl_printToStreamF s ((c # cs) @ rest) (used @ surplus) =
                Impl_printToStreamF s' rest (drop (placeholders ts) used @ surplus)"
      by (simp add: F_literal)
    ultimately show ?thesis by blast
  next
    case True
    with "2.prems"(1) obtain d ds where cs: "cs = d # ds"
      by (cases cs) auto
    show ?thesis
    proof (cases "d = CHR ''%''")
      case esc: True
      with True cs "2.prems"(1) obtain ts' where ts: "tokens ds = Some ts'" "ts = Escape # ts'"
        by auto
      from "2.prems"(3) ts have le: "placeholders ts' \<le> length used" by simp
      from "2.IH"(2) [OF _ cs esc ts(1) "2.prems"(2) le, of "emit (unformatted ''%'') s"] True
      obtain s' out where s': "fst s' = fst (emit (unformatted ''%'') s) @ out"
        "\<And>rest surplus. Impl_printToStreamF (emit (unformatted ''%'') s) (ds @ rest) (used @ surplus) =
                Impl_printToStreamF s' rest (drop (placeholders ts') used @ surplus)"
        by blast
      obtain o1 f1 where "emit (unformatted ''%'') s = (fst s @ o1, f1)"
        using emit_written by blast
      with s'(1) have "\<exists>out. fst s' = fst s @ out" by simp
      moreover from s'(2) True cs esc ts
      have "\<forall>rest surplus. Impl_printToStreamF s ((c # cs) @ rest) (used @ surplus) =
                Impl_printToStreamF s' rest (drop (placeholders ts) used @ surplus)"
        by (simp add: F_escape)
      ultimately show ?thesis by blast
    next
      case False
      with True cs "2.prems"(1) have d: "d = CHR ''s''"
        by (auto split: if_splits)
      with True cs "2.prems"(1) obtain ts' where ts: "tokens ds = Some ts'" "ts = Placeholder # ts'"
        by auto
      with "2.prems"(3) obtain a used' where used: "used = a # used'"
        by (cases used) auto
      with "2.prems"(2) have rest_ok: "\<forall>x\<in>set used'. \<forall>s. snd (Impl_printToStream s [x]) = None"
        and a_ok: "snd (Impl_printToStream s [a]) = None"
        by (simp_all del: split_paired_All)
      obtain t e where h: "Impl_printToStream s [a] = (emit t s, e)"
        using printToStream_emits by blast
      with a_ok have e: "e = None" by simp
      from "2.prems"(3) ts used have le: "placeholders ts' \<le> length used'" by simp
      from "2.IH"(3) [OF _ cs False d ts(1) rest_ok le, of "emit t s"] True
      obtain s' out where s': "fst s' = fst (emit t s) @ out"
        "\<And>rest surplus. Impl_printToStreamF (emit t s) (ds @ rest) (used' @ surplus) =
                Impl_printToStreamF s' rest (drop (placeholders ts') used' @ surplus)"
        by blast
      obtain o1 f1 where "emit t s = (fst s @ o1, f1)"
        using emit_written by blast
      with s'(1) have "\<exists>out. fst s' = fst s @ out" by simp
      moreover from s'(2) True cs d ts used h e
      have "\<forall>rest surplus. Impl_printToStreamF s ((c # cs) @ rest) (used @ surplus) =
                Impl_printToStreamF s' rest (drop (placeholders ts) used @ surplus)"
        by (simp add: F_placeholder)
      ultimately show ?thesis by blast
    qed
  qed
qed

lemma F_prefix_result:
  assumes "tokens pre = Some ts"
    and "\<forall>x\<in>set used. \<forall>s. snd (Impl_printToStream s [x]) = None"
    and "placeholders ts \<le> length used"
  shows "\<exists>s'. Impl_printToStreamF s pre used = (s', None)
           \<and> (\<exists>out. fst s' = fst s @ out)
           \<and> (\<forall>rest surplus. Impl_printToStreamF s (pre @ rest) (used @ surplus) =
                Impl_printToStreamF s' rest (drop (placeholders ts) used @ surplus))"
proof -
  from F_prefix [OF assms, of s] obtain s' where
    w: "\<exists>out. fst s' = fst s @ out" and
    h: "\<And>rest surplus. Impl_printToStreamF s (pre @ rest) (used @ surplus) =
                Impl_printToStreamF s' rest (drop (placeholders ts) used @ surplus)"
    by blast
  from h [of "[]" "[]"] have "Impl_printToStreamF s pre used = (s', None)"
    by (simp add: F_Nil)
  with w h show ?thesis by blast
qed

lemma F_prefix_plain:
  assumes "tokens pre = Some ts"
    and "list_all2 (\<lambda>x r. \<forall>w. Impl_printToStream (w, ios_init) [x] = ((w @ r, ios_init), None)) used rs"
    and "placeholders ts \<le> length used"
  shows "Impl_printToStreamF (w, ios_init) (pre @ rest) (used @ surplus) =
         Impl_printToStreamF (w @ expand ts 0 rs, ios_init) rest (drop (placeholders ts) used @ surplus)"
  using assms
proof (induction pre arbitrary: w ts used rs rule: tokens.induct)
  case 1
  then show ?case by simp
next
  case (2 c cs)
  show ?case
  proof (cases "c = CHR ''%''")
    case False
    with "2.prems"(1) obtain ts' where ts: "tokens cs = Some ts'" "ts = Literal c # ts'"
      by auto
    from "2.IH"(1) [OF False ts(1) "2.prems"(2)] "2.prems"(3) ts False
    show ?thesis by (simp add: F_literal)
  next
    case True
    with "2.prems"(1) obtain d ds where cs: "cs = d # ds"
      by (cases cs) auto
    show ?thesis
    proof (cases "d = CHR ''%''")
      case esc: True
      with True cs "2.prems"(1) obtain ts' where ts: "tokens ds = Some ts'" "ts = Escape # ts'"
        by auto
      from "2.IH"(2) [OF _ cs esc ts(1) "2.prems"(2)] "2.prems"(3) ts True cs esc
      show ?thesis by (simp add: F_escape)
    next
      case False
      with True cs "2.prems"(1) have d: "d = CHR ''s''"
        by (auto split: if_splits)
      with True cs "2.prems"(1) obtain ts' where ts: "tokens ds = Some ts'" "ts = Placeholder # ts'"
        by auto
      with "2.prems"(2,3) obtain a used' r rs' where
        used: "used = a # used'" "rs = r # rs'"
        "\<And>w. Impl_printToStream (w, ios_init) [a] = ((w @ r, ios_init), None)"
        "list_all2 (\<lambda>x r. \<forall>w. Impl_printToStream (w, ios_init) [x] = ((w @ r, ios_init), None)) used' rs'"
        by (cases used; cases rs) auto
      from "2.IH"(3) [OF _ cs False d ts(1) used(4)] "2.prems"(3) ts True cs d used
      show ?thesis by (simp add: F_placeholder expand_shift)
    qed
  qed
qed

lemma reaches_start: "reaches t n [] [] t"
  by (simp add: reaches_def)

lemma reaches_literal:
  "c \<noteq> CHR ''%'' \<Longrightarrow> reaches cs n pre ts rest \<Longrightarrow> reaches (c # cs) n (c # pre) (Literal c # ts) rest"
  by (simp add: reaches_def)

lemma reaches_escape:
  "reaches ds n pre ts rest \<Longrightarrow>
   reaches (CHR ''%'' # CHR ''%'' # ds) n (CHR ''%'' # CHR ''%'' # pre) (Escape # ts) rest"
  by (simp add: reaches_def)

lemma reaches_placeholder:
  "reaches ds n pre ts rest \<Longrightarrow>
   reaches (CHR ''%'' # CHR ''s'' # ds) (Suc n) (CHR ''%'' # CHR ''s'' # pre) (Placeholder # ts) rest"
  by (simp add: reaches_def)

lemma first_stop:
  "\<exists>pre ts rest. reaches t n pre ts rest \<and> stops rest (placeholders ts = n)"
proof (induction t arbitrary: n rule: tokens.induct)
  case 1
  have "reaches [] n [] [] [] \<and> stops [] (placeholders [] = n)"
    by (simp add: reaches_def)
  then show ?case by blast
next
  case (2 c cs)
  show ?case
  proof (cases "c = CHR ''%''")
    case False
    from "2.IH"(1) [OF False, of n] obtain pre ts rest where
      "reaches cs n pre ts rest" "stops rest (placeholders ts = n)"
      by blast
    with False have "reaches (c # cs) n (c # pre) (Literal c # ts) rest
        \<and> stops rest (placeholders (Literal c # ts) = n)"
      by (simp add: reaches_literal)
    then show ?thesis by blast
  next
    case True
    show ?thesis
    proof (cases cs)
      case Nil
      with True have "reaches (c # cs) n [] [] (c # cs) \<and> stops (c # cs) (placeholders [] = n)"
        by (simp add: reaches_start)
      then show ?thesis by blast
    next
      case (Cons d ds)
      show ?thesis
      proof (cases "d = CHR ''%''")
        case esc: True
        from "2.IH"(2) [OF _ Cons esc, of n] True obtain pre ts rest where
          "reaches ds n pre ts rest" "stops rest (placeholders ts = n)"
          by blast
        with True Cons esc
        have "reaches (c # cs) n (CHR ''%'' # CHR ''%'' # pre) (Escape # ts) rest
            \<and> stops rest (placeholders (Escape # ts) = n)"
          by (simp add: reaches_escape)
        then show ?thesis by blast
      next
        case noesc: False
        show ?thesis
        proof (cases "d = CHR ''s'' \<and> n \<noteq> 0")
          case False
          with True Cons noesc
          have "reaches (c # cs) n [] [] (c # cs) \<and> stops (c # cs) (placeholders [] = n)"
            by (auto simp: reaches_start)
          then show ?thesis by blast
        next
          case arg: True
          then obtain m where n: "n = Suc m" by (cases n) auto
          from "2.IH"(3) [OF _ Cons noesc, of m] True arg obtain pre ts rest where
            "reaches ds m pre ts rest" "stops rest (placeholders ts = m)"
            by blast
          with True Cons arg n
          have "reaches (c # cs) n (CHR ''%'' # CHR ''s'' # pre) (Placeholder # ts) rest
              \<and> stops rest (placeholders (Placeholder # ts) = n)"
            by (simp add: reaches_placeholder)
          then show ?thesis by blast
        qed
      qed
    qed
  qed
qed

lemma F_stop:
  assumes "stops rest (args = [])"
  shows "Impl_printToStreamF s rest args = (s, stop_outcome rest)"
proof (cases rest)
  case Nil
  then show ?thesis by (simp add: F_Nil)
next
  case (Cons c cs)
  show ?thesis
  proof (cases cs)
    case Nil
    with Cons assms show ?thesis by (simp add: F_trailing)
  next
    case inner: (Cons d r)
    with Cons assms show ?thesis
      by (cases "d = CHR ''s''") (auto simp: F_missing F_illegal)
  qed
qed

lemma F_reaches:
  assumes "\<forall>x\<in>set args. \<forall>s. snd (Impl_printToStream s [x]) = None"
    and "reaches t (length args) pre ts rest"
    and "stops rest (placeholders ts = length args)"
  shows "\<exists>s'. Impl_printToStreamF s pre (take (placeholders ts) args) = (s', None)
           \<and> (\<exists>out. fst s' = fst s @ out)
           \<and> Impl_printToStreamF s t args = (s', stop_outcome rest)"
proof -
  from assms(2) have t: "t = pre @ rest" and ts: "tokens pre = Some ts"
    and le: "placeholders ts \<le> length args"
    by (simp_all add: reaches_def)
  from assms(1) have used: "\<forall>x\<in>set (take (placeholders ts) args). \<forall>s. snd (Impl_printToStream s [x]) = None"
    by (meson in_set_takeD)
  from le have k: "placeholders ts \<le> length (take (placeholders ts) args)" by simp
  from F_prefix_result [OF ts used k, of s] obtain s' where
    r: "Impl_printToStreamF s pre (take (placeholders ts) args) = (s', None)"
    and w: "\<exists>out. fst s' = fst s @ out"
    and h: "\<And>rest surplus. Impl_printToStreamF s (pre @ rest) (take (placeholders ts) args @ surplus) =
          Impl_printToStreamF s' rest (drop (placeholders ts) (take (placeholders ts) args) @ surplus)"
    by blast
  from h [of rest "drop (placeholders ts) args"] t
  have "Impl_printToStreamF s t args = Impl_printToStreamF s' rest (drop (placeholders ts) args)"
    by simp
  moreover from le have "(placeholders ts = length args) = (drop (placeholders ts) args = [])"
    by auto
  with assms(3) have "stops rest (drop (placeholders ts) args = [])" by simp
  from F_stop [OF this] have "Impl_printToStreamF s' rest (drop (placeholders ts) args)
      = (s', stop_outcome rest)" .
  ultimately show ?thesis using r w by auto
qed

lemma F_reaches_plain:
  assumes "list_all2 (\<lambda>x r. \<forall>w. Impl_printToStream (w, ios_init) [x] = ((w @ r, ios_init), None)) args rs"
    and "reaches t (length args) pre ts rest"
    and "stops rest (placeholders ts = length args)"
  shows "Impl_printToStreamF (w, ios_init) t args = ((w @ expand ts 0 rs, ios_init), stop_outcome rest)"
proof -
  from assms(2) have t: "t = pre @ rest" and ts: "tokens pre = Some ts"
    and le: "placeholders ts \<le> length args"
    by (simp_all add: reaches_def)
  from le have "(placeholders ts = length args) = (drop (placeholders ts) args = [])"
    by auto
  with assms(3) have "stops rest (drop (placeholders ts) args = [])" by simp
  from F_stop [OF this] F_prefix_plain [OF ts assms(1) le, of w rest "[]"] t
  show ?thesis by simp
qed

lemma toStringF_eq:
  "toStringF t args =
     (case Impl_printToStreamF ([], ios_init) t args of
        (s, None) \<Rightarrow> Inr (fst s) | (s, Some e) \<Rightarrow> Inl e)"
  by (simp add: toStringF_def printToStreamF_def stringstream_def split: prod.split option.split)

lemma stop_outcome_cases:
  assumes "stops rest b"
  shows "(stop_outcome rest = None \<longleftrightarrow> rest = [])
       \<and> (stop_outcome rest = Some (invalid_argument unmatched_percent) \<longleftrightarrow> rest = ''%'')
       \<and> (stop_outcome rest = Some (invalid_argument illegal_specifier) \<longleftrightarrow>
            (\<exists>d r. rest = CHR ''%'' # d # r \<and> d \<noteq> CHR ''%'' \<and> d \<noteq> CHR ''s''))
       \<and> (stop_outcome rest = Some (invalid_argument more_arguments) \<longleftrightarrow>
            (\<exists>r. rest = CHR ''%'' # CHR ''s'' # r))"
proof (cases rest)
  case Nil
  then show ?thesis by simp
next
  case (Cons c cs)
  show ?thesis
  proof (cases cs)
    case Nil
    with Cons assms show ?thesis by (simp add: messages_distinct)
  next
    case inner: (Cons d r)
    with Cons assms show ?thesis by (auto simp: messages_distinct)
  qed
qed





lemmas stream_simps =
  emit_def formatted_def unformatted_def padded_def ios_init_def stringstream_def
  setw_def hex_def int_255_def

lemmas render_simps =
  toString_def printToStream_def Impl_printToStream.simps(2) printTupleHelper.simps stream_simps

lemmas interpret_simps =
  toStringF_def printToStreamF_def F_Nil F_literal F_escape F_trailing F_illegal F_missing
  F_placeholder render_simps

section \<open>The claims\<close>

subsection \<open>Classification\<close>

text \<open>
  C1. Every type gets exactly one category: the first category of the order Streamable,
  Pair, Tuple, Iteratable, Unprintable whose shape the type satisfies, whatever the four
  probes answer. A string, streamable and a range, is Streamable.
\<close>

theorem getPrintableCategory_first_match:
  "find (satisfies streamable pair tuple iteratable) precedence
     = Some (category_of_probes streamable pair tuple iteratable)
   \<and> find (satisfies (isStreamable T) (isPair T) (isTuple T) (isIteratable T)) precedence
     = Some (getPrintableCategory T)
   \<and> (\<exists>!c. getPrintableCategory T = c)
   \<and> getPrintableCategory (Range True (Plain True)) = Streamable"
  by (simp add: precedence_def getPrintableCategory_def category_of_probes_def)

subsection \<open>The format string\<close>

text \<open>
  C2, amended. For a well-formed template (one that reads as literal characters, \<open>%%\<close> and
  \<open>%s\<close> to its end; a template in which every percent sign is followed by \<open>s\<close> or \<open>%\<close>
  does), at least as many arguments as placeholders, and arguments each of which, written
  alone to a new stream, leaves the formatting state as it found it, \<open>toStringF\<close> returns
  the literal characters in order, one percent sign for each \<open>%%\<close> with no argument used,
  and the text of the \<open>i\<close>-th argument in place of the \<open>i\<close>-th placeholder.
\<close>

theorem toStringF_substitutes:
  assumes "tokens template = Some ts" and "placeholders ts \<le> length args"
    and "list_all2 (\<lambda>x r. printToStream stringstream [x] = ((r, ios_init), None)) args rs"
  shows "toStringF template args = Inr (expand ts 0 rs)"
  using F_prefix_plain [OF assms(1) rendered_all [OF assms(3)] assms(2), of "[]" "[]" "[]"]
  by (simp add: toStringF_eq F_Nil)

theorem toStringF_substitutes_witness:
  "tokens ''%s is 100%% of %s'' =
      Some ([Placeholder] @ map Literal '' is 100'' @ [Escape] @ map Literal '' of '' @ [Placeholder])
   \<and> list_all2 (\<lambda>x r. printToStream stringstream [x] = ((r, ios_init), None))
        [Obj (Some (formatted ''1'')),
         PairV None (Obj (Some (formatted ''2''))) (Obj (Some (formatted ''3'')))]
        [''1'', ''(2, 3)'']
   \<and> toStringF ''%s is 100%% of %s''
        [Obj (Some (formatted ''1'')),
         PairV None (Obj (Some (formatted ''2''))) (Obj (Some (formatted ''3'')))]
       = Inr ''1 is 100% of (2, 3)''"
proof -
  have t: "tokens ''%s is 100%% of %s'' =
      Some ([Placeholder] @ map Literal '' is 100'' @ [Escape] @ map Literal '' of '' @ [Placeholder])"
    by simp
  have r: "list_all2 (\<lambda>x r. printToStream stringstream [x] = ((r, ios_init), None))
        [Obj (Some (formatted ''1'')),
         PairV None (Obj (Some (formatted ''2''))) (Obj (Some (formatted ''3'')))]
        [''1'', ''(2, 3)'']"
    by (simp add: render_simps)
  from toStringF_substitutes [OF t _ r] t r show ?thesis by simp
qed

text \<open>
  An argument is written in the state the arguments before it left: after \<open>std::hex\<close> the
  number 255, which alone renders as \<open>255\<close>, is written as \<open>ff\<close>.
\<close>

theorem hex_counterexample:
  "tokens ''%s|%s'' = Some [Placeholder, Literal CHR ''|'', Placeholder]
   \<and> toString [Obj (Some hex)] = Inr []
   \<and> toString [Obj (Some int_255)] = Inr ''255''
   \<and> toStringF ''%s|%s'' [Obj (Some hex), Obj (Some int_255)] = Inr ''|ff''
   \<and> toStringF ''%s|%s'' [Obj (Some hex), Obj (Some int_255)]
       \<noteq> Inr (expand [Placeholder, Literal CHR ''|'', Placeholder] 0 [[], ''255''])"
  by (simp add: interpret_simps)

text \<open>
  C3, amended. If the template is well-formed up to a placeholder, and the placeholders
  before it are as many as the arguments, \<open>toStringF\<close> throws the error that the format
  string requests more arguments than provided, whatever follows the placeholder.
\<close>

theorem missing_argument_raises:
  assumes "tokens pre = Some ts" and "placeholders ts = length args"
    and "list_all2 (\<lambda>x r. toString [x] = Inr r) args rs"
  shows "toStringF (pre @ ''%s'' @ rest) args = Inl (invalid_argument more_arguments)"
proof -
  from assms(1,2) have "reaches (pre @ ''%s'' @ rest) (length args) pre ts (CHR ''%'' # CHR ''s'' # rest)"
    and "stops (CHR ''%'' # CHR ''s'' # rest) (placeholders ts = length args)"
    by (simp_all add: reaches_def)
  from F_reaches [OF returned_all [OF assms(3)] this, of "([], ios_init)"]
  show ?thesis by (auto simp: toStringF_eq)
qed

theorem missing_argument_raises_witness:
  "tokens ''%s and '' = Some (Placeholder # map Literal '' and '')
   \<and> list_all2 (\<lambda>x r. toString [x] = Inr r) [Obj (Some (formatted ''1''))] [''1'']
   \<and> toStringF ''%s and %s%q'' [Obj (Some (formatted ''1''))] = Inl (invalid_argument more_arguments)"
proof -
  have t: "tokens ''%s and '' = Some (Placeholder # map Literal '' and '')" by simp
  have r: "list_all2 (\<lambda>x r. toString [x] = Inr r) [Obj (Some (formatted ''1''))] [''1'']"
    by (simp add: render_simps)
  from missing_argument_raises [OF t _ r, of "''%q''"] t r show ?thesis by simp
qed

text \<open>
  Without the condition on what precedes the placeholder the statement fails: in
  \<open>%q%s\<close> with no arguments the placeholder has no argument, and the error thrown is the
  one of the illegal specifier before it.
\<close>

theorem illegal_before_missing_counterexample:
  "length (filter (\<lambda>d. d = CHR ''s'') (specifiers ''%q%s'')) > length ([] :: val list)
   \<and> toStringF ''%q%s'' [] = Inl (invalid_argument illegal_specifier)
   \<and> toStringF ''%q%s'' [] \<noteq> Inl (invalid_argument more_arguments)"
  by (simp add: interpret_simps messages_distinct)

text \<open>
  C4. When the template has been read to its end and arguments remain, \<open>toStringF\<close>
  returns, and what it returns is the text built without the surplus arguments: they are
  not written and nothing is thrown. \<open>printToStreamF\<close> leaves the stream as it does
  without them. In the source this is the branch of \<open>Impl::printToStreamF\<close> taken when
  \<open>printFormatPartToStream\<close> reports no further placeholder.
\<close>

theorem surplus_arguments_discarded:
  assumes "tokens template = Some ts" and "placeholders ts = length used"
    and "list_all2 (\<lambda>x r. toString [x] = Inr r) used rs"
  shows "(\<exists>out. toStringF template (used @ surplus) = Inr out)
       \<and> toStringF template (used @ surplus) = toStringF template used
       \<and> printToStreamF sink template (used @ surplus) = printToStreamF sink template used
       \<and> (printFormatPartToStream stream format = (stream', Inr (it, False)) \<longrightarrow>
            Impl_printToStreamF stream format (arg # args) = (stream', None))"
proof -
  from assms(2) have le: "placeholders ts \<le> length used" by simp
  have same: "\<exists>s'. Impl_printToStreamF s template (used @ more) = (s', None)
      \<and> Impl_printToStreamF s template used = (s', None)" for s more
  proof -
    from F_prefix_result [OF assms(1) returned_all [OF assms(3)] le, of s] obtain s' where
      r: "Impl_printToStreamF s template used = (s', None)" and
      h: "\<And>rest surplus. Impl_printToStreamF s (template @ rest) (used @ surplus) =
                Impl_printToStreamF s' rest (drop (placeholders ts) used @ surplus)"
      by blast
    from h [of "[]" more] r show ?thesis by (simp add: F_Nil)
  qed
  from same [of "([], ios_init)" surplus] obtain s' where
    "Impl_printToStreamF ([], ios_init) template (used @ surplus) = (s', None)"
    "Impl_printToStreamF ([], ios_init) template used = (s', None)"
    by blast
  then have "\<exists>out. toStringF template (used @ surplus) = Inr out"
    and "toStringF template (used @ surplus) = toStringF template used"
    by (simp_all add: toStringF_eq)
  moreover from same [of sink surplus]
  have "printToStreamF sink template (used @ surplus) = printToStreamF sink template used"
    by (auto simp: printToStreamF_def)
  moreover have "Impl_printToStreamF stream format (arg # args) = (stream', None)"
    if "printFormatPartToStream stream format = (stream', Inr (it, False))"
  proof -
    from that have "it = []"
      by (simp add: printFormatPartToStream_loop loop_end)
    with that show ?thesis by (simp add: Impl_printToStreamF.simps)
  qed
  ultimately show ?thesis by blast
qed

theorem surplus_arguments_discarded_witness:
  "tokens ''%s and no more'' = Some (Placeholder # map Literal '' and no more'')
   \<and> placeholders (Placeholder # map Literal '' and no more'') = length [Obj (Some (formatted ''1''))]
   \<and> list_all2 (\<lambda>x r. toString [x] = Inr r) [Obj (Some (formatted ''1''))] [''1'']
   \<and> toStringF ''%s and no more'' [Obj (Some (formatted ''1''))] = Inr ''1 and no more''
   \<and> toStringF ''%s and no more''
        ([Obj (Some (formatted ''1''))] @ [Obj (Some (formatted ''2'')), Obj (Some (formatted ''3''))])
       = Inr ''1 and no more''
   \<and> printFormatPartToStream (''out: '', ios_init) ''tail'' = ((''out: tail'', ios_init), Inr ([], False))
   \<and> Impl_printToStreamF (''out: '', ios_init) ''tail''
        [Obj (Some (formatted ''2'')), Obj (Some (formatted ''3''))]
       = ((''out: tail'', ios_init), None)"
proof -
  have t: "tokens ''%s and no more'' = Some (Placeholder # map Literal '' and no more'')"
    by simp
  have k: "placeholders (Placeholder # map Literal '' and no more'') = length [Obj (Some (formatted ''1''))]"
    by (simp add: placeholders_def)
  have r: "list_all2 (\<lambda>x r. toString [x] = Inr r) [Obj (Some (formatted ''1''))] [''1'']"
    by (simp add: render_simps)
  have u: "toStringF ''%s and no more'' [Obj (Some (formatted ''1''))] = Inr ''1 and no more''"
    by (simp add: interpret_simps)
  have p: "printFormatPartToStream (''out: '', ios_init) ''tail''
      = ((''out: tail'', ios_init), Inr ([], False))"
    by (simp add: printFormatPartToStream_loop loop_literal loop_Nil)
  note h = surplus_arguments_discarded [OF t k r,
      of "[Obj (Some (formatted ''2'')), Obj (Some (formatted ''3''))]"
      "(''out: '', ios_init)" "(''out: '', ios_init)" "''tail''" "(''out: tail'', ios_init)" "[]"
      "Obj (Some (formatted ''2''))" "[Obj (Some (formatted ''3''))]"]
  from h u have c2: "toStringF ''%s and no more''
        ([Obj (Some (formatted ''1''))] @ [Obj (Some (formatted ''2'')), Obj (Some (formatted ''3''))])
      = Inr ''1 and no more''"
    by simp
  from h p have c3: "Impl_printToStreamF (''out: '', ios_init) ''tail''
        [Obj (Some (formatted ''2'')), Obj (Some (formatted ''3''))]
      = ((''out: tail'', ios_init), None)"
    by blast
  from t k r u c2 p c3 show ?thesis by blast
qed

text \<open>
  C5, amended. Interpretation stops at the first defect, so one call throws one error.
  \<open>toStringF\<close> throws the error of the illegal specifier exactly when the template is
  well-formed up to a percent sign followed by a character other than \<open>s\<close> and \<open>%\<close>, with no
  more placeholders before it than arguments; it throws the error of the unmatched percent
  sign exactly when the template is well-formed up to a last percent sign, with no more
  placeholders than arguments; it throws the error of the missing argument exactly when
  the template is well-formed up to a placeholder with as many placeholders before it as
  arguments; and it returns exactly when the template is well-formed with no more
  placeholders than arguments.
\<close>

theorem template_errors_characterised:
  assumes "list_all2 (\<lambda>x r. toString [x] = Inr r) args rs"
  shows "(toStringF t args = Inl (invalid_argument illegal_specifier) \<longleftrightarrow>
           (\<exists>pre ts d rest. t = pre @ CHR ''%'' # d # rest \<and> d \<noteq> CHR ''%'' \<and> d \<noteq> CHR ''s''
              \<and> tokens pre = Some ts \<and> placeholders ts \<le> length args))
       \<and> (toStringF t args = Inl (invalid_argument unmatched_percent) \<longleftrightarrow>
           (\<exists>pre ts. t = pre @ ''%'' \<and> tokens pre = Some ts \<and> placeholders ts \<le> length args))
       \<and> (toStringF t args = Inl (invalid_argument more_arguments) \<longleftrightarrow>
           (\<exists>pre ts rest. t = pre @ ''%s'' @ rest \<and> tokens pre = Some ts
              \<and> placeholders ts = length args))
       \<and> ((\<exists>out. toStringF t args = Inr out) \<longleftrightarrow>
           (\<exists>ts. tokens t = Some ts \<and> placeholders ts \<le> length args))"
proof -
  note renders = returned_all [OF assms]
  have stop: "(\<forall>e. stop_outcome q = Some e \<longrightarrow> toStringF t args = Inl e)
      \<and> (stop_outcome q = None \<longrightarrow> (\<exists>out. toStringF t args = Inr out))"
    if "reaches t (length args) p us q" "stops q (placeholders us = length args)" for p us q
  proof -
    from F_reaches [OF renders that, of "([], ios_init)"] obtain s' where
      "Impl_printToStreamF ([], ios_init) t args = (s', stop_outcome q)"
      by blast
    then show ?thesis by (simp add: toStringF_eq)
  qed
  obtain pre ts rest where r: "reaches t (length args) pre ts rest"
    and st: "stops rest (placeholders ts = length args)"
    using first_stop by blast
  from stop [OF r st]
  have res: "\<forall>e. stop_outcome rest = Some e \<longrightarrow> toStringF t args = Inl e"
    and res_ok: "stop_outcome rest = None \<longrightarrow> (\<exists>out. toStringF t args = Inr out)"
    by blast+
  from r have t: "t = pre @ rest" "tokens pre = Some ts" "placeholders ts \<le> length args"
    by (simp_all add: reaches_def)
  note oc = stop_outcome_cases [OF st]
  have illegal: "toStringF t args = Inl (invalid_argument illegal_specifier)"
    if "t = p @ CHR ''%'' # d # q" "d \<noteq> CHR ''%''" "d \<noteq> CHR ''s''"
       "tokens p = Some us" "placeholders us \<le> length args" for p d q us
  proof -
    from that have "reaches t (length args) p us (CHR ''%'' # d # q)"
      and "stops (CHR ''%'' # d # q) (placeholders us = length args)"
      by (simp_all add: reaches_def)
    from stop [OF this] that show ?thesis by auto
  qed
  have unmatched: "toStringF t args = Inl (invalid_argument unmatched_percent)"
    if "t = p @ ''%''" "tokens p = Some us" "placeholders us \<le> length args" for p us
  proof -
    from that have "reaches t (length args) p us ''%''"
      and "stops ''%'' (placeholders us = length args)"
      by (simp_all add: reaches_def)
    from stop [OF this] show ?thesis by auto
  qed
  have missing: "toStringF t args = Inl (invalid_argument more_arguments)"
    if "t = p @ ''%s'' @ q" "tokens p = Some us" "placeholders us = length args" for p q us
  proof -
    from that have "reaches t (length args) p us (CHR ''%'' # CHR ''s'' # q)"
      and "stops (CHR ''%'' # CHR ''s'' # q) (placeholders us = length args)"
      by (simp_all add: reaches_def)
    from stop [OF this] show ?thesis by auto
  qed
  have fine: "\<exists>out. toStringF t args = Inr out"
    if "tokens t = Some us" "placeholders us \<le> length args" for us
  proof -
    from that have "reaches t (length args) t us []"
      and "stops [] (placeholders us = length args)"
      by (simp_all add: reaches_def)
    from stop [OF this] show ?thesis by auto
  qed
  have "\<exists>pre ts d rest. t = pre @ CHR ''%'' # d # rest \<and> d \<noteq> CHR ''%'' \<and> d \<noteq> CHR ''s''
              \<and> tokens pre = Some ts \<and> placeholders ts \<le> length args"
    if "toStringF t args = Inl (invalid_argument illegal_specifier)"
  proof -
    from that res res_ok have "stop_outcome rest = Some (invalid_argument illegal_specifier)"
      by (cases "stop_outcome rest") auto
    with oc obtain d q where "rest = CHR ''%'' # d # q" "d \<noteq> CHR ''%''" "d \<noteq> CHR ''s''"
      by blast
    with t show ?thesis by blast
  qed
  moreover have "\<exists>pre ts. t = pre @ ''%'' \<and> tokens pre = Some ts \<and> placeholders ts \<le> length args"
    if "toStringF t args = Inl (invalid_argument unmatched_percent)"
  proof -
    from that res res_ok have "stop_outcome rest = Some (invalid_argument unmatched_percent)"
      by (cases "stop_outcome rest") auto
    with oc have "rest = ''%''" by blast
    with t show ?thesis by blast
  qed
  moreover have "\<exists>pre ts rest. t = pre @ ''%s'' @ rest \<and> tokens pre = Some ts
              \<and> placeholders ts = length args"
    if "toStringF t args = Inl (invalid_argument more_arguments)"
  proof -
    from that res res_ok have o: "stop_outcome rest = Some (invalid_argument more_arguments)"
      by (cases "stop_outcome rest") auto
    with oc obtain q where q: "rest = CHR ''%'' # CHR ''s'' # q"
      by blast
    with st have "placeholders ts = length args" by simp
    with t q show ?thesis by auto
  qed
  moreover have "\<exists>ts. tokens t = Some ts \<and> placeholders ts \<le> length args"
    if "toStringF t args = Inr out" for out
  proof -
    from that res have "stop_outcome rest = None"
      by (cases "stop_outcome rest") auto
    with oc have "rest = []" by blast
    with t show ?thesis by simp
  qed
  ultimately show ?thesis using illegal unmatched missing fine by blast
qed

theorem template_errors_characterised_witness:
  "list_all2 (\<lambda>x r. toString [x] = Inr r) [Obj (Some (formatted ''1''))] [''1'']
   \<and> toStringF ''%s: bad %q'' [Obj (Some (formatted ''1''))] = Inl (invalid_argument illegal_specifier)
   \<and> toStringF ''%s: trailing %'' [Obj (Some (formatted ''1''))] = Inl (invalid_argument unmatched_percent)
   \<and> (\<exists>out. toStringF ''%s: 100%%'' [Obj (Some (formatted ''1''))] = Inr out)"
proof -
  have r: "list_all2 (\<lambda>x r. toString [x] = Inr r) [Obj (Some (formatted ''1''))] [''1'']"
    by (simp add: render_simps)
  note h = template_errors_characterised [OF r]
  have "''%s: bad %q'' = ''%s: bad '' @ CHR ''%'' # CHR ''q'' # []
      \<and> CHR ''q'' \<noteq> CHR ''%'' \<and> CHR ''q'' \<noteq> CHR ''s''
      \<and> tokens ''%s: bad '' = Some (Placeholder # map Literal '': bad '')
      \<and> placeholders (Placeholder # map Literal '': bad '') \<le> length [Obj (Some (formatted ''1''))]"
    by simp
  with h [of "''%s: bad %q''"]
  have c1: "toStringF ''%s: bad %q'' [Obj (Some (formatted ''1''))] = Inl (invalid_argument illegal_specifier)"
    by blast
  have "''%s: trailing %'' = ''%s: trailing '' @ ''%''
      \<and> tokens ''%s: trailing '' = Some (Placeholder # map Literal '': trailing '')
      \<and> placeholders (Placeholder # map Literal '': trailing '') \<le> length [Obj (Some (formatted ''1''))]"
    by simp
  with h [of "''%s: trailing %''"]
  have c2: "toStringF ''%s: trailing %'' [Obj (Some (formatted ''1''))] = Inl (invalid_argument unmatched_percent)"
    by blast
  have "tokens ''%s: 100%%'' = Some (Placeholder # map Literal '': 100'' @ [Escape])
      \<and> placeholders (Placeholder # map Literal '': 100'' @ [Escape]) \<le> length [Obj (Some (formatted ''1''))]"
    by (simp add: placeholders_def)
  with h [of "''%s: 100%%''"]
  have c3: "\<exists>out. toStringF ''%s: 100%%'' [Obj (Some (formatted ''1''))] = Inr out"
    by blast
  from r c1 c2 c3 show ?thesis by blast
qed

text \<open>
  Each error does not come exactly when the template has its defect: \<open>%q%\<close> has both
  defects and throws only the first, and \<open>%s%q\<close> without arguments has an illegal specifier
  and throws the error of the missing argument.
\<close>

theorem first_defect_wins_counterexample:
  "CHR ''q'' \<in> set (specifiers ''%q%'') \<and> dangling ''%q%''
   \<and> toStringF ''%q%'' [] = Inl (invalid_argument illegal_specifier)
   \<and> toStringF ''%q%'' [] \<noteq> Inl (invalid_argument unmatched_percent)
   \<and> CHR ''q'' \<in> set (specifiers ''%s%q'')
   \<and> toStringF ''%s%q'' [] = Inl (invalid_argument more_arguments)
   \<and> toStringF ''%s%q'' [] \<noteq> Inl (invalid_argument illegal_specifier)"
  by (simp add: interpret_simps messages_distinct)

subsection \<open>Rendering\<close>

text \<open>
  C6, amended. A pair whose category is Pair (its own type has no stream insertion
  operator), with components each of which, written alone to a new stream, leaves the
  formatting state as it found it, renders as \<open>(\<close>, the first component, \<open>, \<close>, the second
  component and \<open>)\<close>, and leaves the state so too; each component is rendered by
  \<open>printToStream\<close> itself, under its own category.
\<close>

theorem pair_rendering:
  assumes "getPrintableCategory (type_of (PairV ins a b)) = PairCat"
    and "printToStream stringstream [a] = ((ra, ios_init), None)"
    and "printToStream stringstream [b] = ((rb, ios_init), None)"
  shows "printToStream stringstream [PairV ins a b] = ((''('' @ ra @ '', '' @ rb @ '')'', ios_init), None)
       \<and> toString [PairV ins a b] = Inr (''('' @ ra @ '', '' @ rb @ '')'')"
proof -
  from assms(1) have "ins = None" by (simp split: if_splits)
  then have "Impl_printToStream ([], ios_init) [PairV ins a b]
      = ((''('' @ ra @ '', '' @ rb @ '')'', ios_init), None)"
    by (simp add: printToStream_shapes plain_in_stream [OF assms(2)] plain_in_stream [OF assms(3)])
  then show ?thesis
    by (simp add: toString_def printToStream_def stringstream_def)
qed

theorem pair_rendering_witness:
  "getPrintableCategory (type_of (PairV None (Obj (Some (formatted ''1'')))
         (RangeV None (Plain True) [Obj (Some (formatted ''2'')), Obj (Some (formatted ''3''))]))) = PairCat
   \<and> printToStream stringstream [Obj (Some (formatted ''1''))] = ((''1'', ios_init), None)
   \<and> printToStream stringstream
        [RangeV None (Plain True) [Obj (Some (formatted ''2'')), Obj (Some (formatted ''3''))]]
       = ((''[2, 3]'', ios_init), None)
   \<and> toString [PairV None (Obj (Some (formatted ''1'')))
         (RangeV None (Plain True) [Obj (Some (formatted ''2'')), Obj (Some (formatted ''3''))])]
       = Inr ''(1, [2, 3])''"
proof -
  have c: "getPrintableCategory (type_of (PairV None (Obj (Some (formatted ''1'')))
         (RangeV None (Plain True) [Obj (Some (formatted ''2'')), Obj (Some (formatted ''3''))]))) = PairCat"
    by simp
  have a: "printToStream stringstream [Obj (Some (formatted ''1''))] = ((''1'', ios_init), None)"
    by (simp add: render_simps)
  have b: "printToStream stringstream
        [RangeV None (Plain True) [Obj (Some (formatted ''2'')), Obj (Some (formatted ''3''))]]
       = ((''[2, 3]'', ios_init), None)"
    by (simp add: render_simps)
  from pair_rendering [OF c a b] c a b show ?thesis by simp
qed

text \<open>
  A pair type with its own \<open>operator<<\<close> (one declared in the namespace of a component
  type, say) is Streamable, and its value renders as that operator writes it. And a
  component is written in the state the insertions before it left: in the pair of
  \<open>std::setw(5)\<close> and 42 the width is used up by \<open>", "\<close>.
\<close>

theorem pair_rendering_counterexample:
  "toString [Obj (Some (formatted ''1''))] = Inr ''1''
   \<and> toString [Obj (Some (formatted ''2''))] = Inr ''2''
   \<and> getPrintableCategory (type_of (PairV (Some (formatted ''one-two''))
         (Obj (Some (formatted ''1''))) (Obj (Some (formatted ''2''))))) = Streamable
   \<and> toString [PairV (Some (formatted ''one-two''))
         (Obj (Some (formatted ''1''))) (Obj (Some (formatted ''2'')))] = Inr ''one-two''
   \<and> toString [PairV (Some (formatted ''one-two''))
         (Obj (Some (formatted ''1''))) (Obj (Some (formatted ''2'')))]
       \<noteq> Inr (''('' @ ''1'' @ '', '' @ ''2'' @ '')'')
   \<and> toString [Obj (Some (setw 5))] = Inr []
   \<and> toString [Obj (Some (formatted ''42''))] = Inr ''42''
   \<and> getPrintableCategory (type_of (PairV None (Obj (Some (setw 5))) (Obj (Some (formatted ''42'')))))
       = PairCat
   \<and> toString [PairV None (Obj (Some (setw 5))) (Obj (Some (formatted ''42'')))] = Inr ''(   , 42)''
   \<and> toString [PairV None (Obj (Some (setw 5))) (Obj (Some (formatted ''42'')))]
       \<noteq> Inr (''('' @ [] @ '', '' @ ''42'' @ '')'')"
  by (simp add: render_simps eval_nat_numeral)

text \<open>
  C7, amended. A finite range whose category is Iteratable (its own type has no stream
  insertion operator), with elements each of which, written alone to a new stream, leaves
  the formatting state as it found it, renders as \<open>[\<close>, the rendered elements in order
  separated by \<open>, \<close>, and \<open>]\<close>; the empty range renders as \<open>[]\<close>.
\<close>

theorem range_rendering:
  assumes "getPrintableCategory (type_of (RangeV ins E xs)) = Iteratable"
    and "list_all2 (\<lambda>x r. printToStream stringstream [x] = ((r, ios_init), None)) xs rs"
  shows "printToStream stringstream [RangeV ins E xs] = ((''['' @ joined rs @ '']'', ios_init), None)
         \<and> toString [RangeV ins E xs] = Inr (''['' @ joined rs @ '']'')
         \<and> toString [RangeV ins E []] = Inr ''[]''"
proof -
  from assms(1) have "ins = None" by (simp split: if_splits)
  then have "Impl_printToStream ([], ios_init) [RangeV ins E xs]
      = ((''['' @ joined rs @ '']'', ios_init), None)"
    and "Impl_printToStream ([], ios_init) [RangeV ins E []] = ((''[]'', ios_init), None)"
    by (simp_all add: printToStream_shapes printIteratable_first [OF rendered_all [OF assms(2)]])
  then show ?thesis
    by (simp add: toString_def printToStream_def stringstream_def)
qed

theorem range_rendering_witness:
  "getPrintableCategory (type_of (RangeV None (StdPair False (Plain True) (Plain True))
        [PairV None (Obj (Some (formatted ''1''))) (Obj (Some (formatted ''2''))),
         PairV None (Obj (Some (formatted ''3''))) (Obj (Some (formatted ''4'')))]))
     = Iteratable
   \<and> list_all2 (\<lambda>x r. printToStream stringstream [x] = ((r, ios_init), None))
     [PairV None (Obj (Some (formatted ''1''))) (Obj (Some (formatted ''2''))),
      PairV None (Obj (Some (formatted ''3''))) (Obj (Some (formatted ''4'')))]
     [''(1, 2)'', ''(3, 4)'']
   \<and> toString [RangeV None (StdPair False (Plain True) (Plain True))
        [PairV None (Obj (Some (formatted ''1''))) (Obj (Some (formatted ''2''))),
         PairV None (Obj (Some (formatted ''3''))) (Obj (Some (formatted ''4'')))]]
       = Inr ''[(1, 2), (3, 4)]''"
proof -
  have c: "getPrintableCategory (type_of (RangeV None (StdPair False (Plain True) (Plain True))
        [PairV None (Obj (Some (formatted ''1''))) (Obj (Some (formatted ''2''))),
         PairV None (Obj (Some (formatted ''3''))) (Obj (Some (formatted ''4'')))]))
     = Iteratable"
    by simp
  have h: "list_all2 (\<lambda>x r. printToStream stringstream [x] = ((r, ios_init), None))
     [PairV None (Obj (Some (formatted ''1''))) (Obj (Some (formatted ''2''))),
      PairV None (Obj (Some (formatted ''3''))) (Obj (Some (formatted ''4'')))]
     [''(1, 2)'', ''(3, 4)'']"
    by (simp add: render_simps)
  from range_rendering [OF c h] c h show ?thesis by simp
qed

text \<open>
  \<open>std::string\<close> is a finite range of characters that render, and it is Streamable:
  the string \<open>ab\<close> renders as \<open>ab\<close>. And an element is written in the state the insertions
  before it left, and leaves its own to those after it: in a range whose one element is
  \<open>std::setw(5)\<close> the closing bracket is padded to that width.
\<close>

theorem range_rendering_counterexample:
  "list_all2 (\<lambda>x r. toString [x] = Inr r)
      [Obj (Some (formatted ''a'')), Obj (Some (formatted ''b''))] [''a'', ''b'']
   \<and> isIteratable (type_of (RangeV (Some (formatted ''ab'')) (Plain True)
        [Obj (Some (formatted ''a'')), Obj (Some (formatted ''b''))]))
   \<and> toString [RangeV (Some (formatted ''ab'')) (Plain True)
        [Obj (Some (formatted ''a'')), Obj (Some (formatted ''b''))]] = Inr ''ab''
   \<and> toString [RangeV (Some (formatted ''ab'')) (Plain True)
        [Obj (Some (formatted ''a'')), Obj (Some (formatted ''b''))]]
       \<noteq> Inr (''['' @ joined [''a'', ''b''] @ '']'')
   \<and> toString [Obj (Some (setw 5))] = Inr []
   \<and> getPrintableCategory (type_of (RangeV None (Plain True) [Obj (Some (setw 5))])) = Iteratable
   \<and> toString [RangeV None (Plain True) [Obj (Some (setw 5))]] = Inr ''[    ]''
   \<and> toString [RangeV None (Plain True) [Obj (Some (setw 5))]] \<noteq> Inr (''['' @ joined [[]] @ '']'')"
  by (simp add: render_simps eval_nat_numeral)



text \<open>
  C9, amended. \<open>toString\<close> of values each of which, written alone to a new stream, leaves
  the formatting state as it found it, is the concatenation of their rendered texts in
  argument order, with nothing between or around them, and \<open>toString\<close> of no arguments is
  the empty text.
\<close>

theorem toString_concatenates:
  assumes "list_all2 (\<lambda>v r. printToStream stringstream [v] = ((r, ios_init), None)) vs rs"
  shows "toString vs = Inr (concat rs) \<and> toString [] = Inr []"
  by (simp add: toString_def printToStream_def stringstream_def
      printToStream_all [OF rendered_all [OF assms]])

theorem toString_concatenates_witness:
  "list_all2 (\<lambda>v r. printToStream stringstream [v] = ((r, ios_init), None))
     [Obj (Some (formatted ''1'')),
      PairV None (Obj (Some (formatted ''2''))) (Obj (Some (formatted ''3'')))]
     [''1'', ''(2, 3)'']
   \<and> toString [Obj (Some (formatted ''1'')),
                PairV None (Obj (Some (formatted ''2''))) (Obj (Some (formatted ''3'')))]
       = Inr ''1(2, 3)''"
proof -
  have h: "list_all2 (\<lambda>v r. printToStream stringstream [v] = ((r, ios_init), None))
     [Obj (Some (formatted ''1'')),
      PairV None (Obj (Some (formatted ''2''))) (Obj (Some (formatted ''3'')))]
     [''1'', ''(2, 3)'']"
    by (simp add: render_simps)
  from toString_concatenates [OF h] show ?thesis using h by simp
qed

text \<open>
  A value is written in the state the values before it left: after \<open>std::setw(5)\<close>, which
  alone renders as the empty text, 42 is written padded to five characters.
\<close>

theorem setw_counterexample:
  "list_all2 (\<lambda>v r. toString [v] = Inr r)
      [Obj (Some (setw 5)), Obj (Some (formatted ''42''))] [[], ''42'']
   \<and> toString [Obj (Some (setw 5)), Obj (Some (formatted ''42''))] = Inr ''   42''
   \<and> toString [Obj (Some (setw 5)), Obj (Some (formatted ''42''))] \<noteq> Inr (concat [[], ''42''])"
  by (simp add: render_simps eval_nat_numeral)

subsection \<open>Partial output\<close>

text \<open>
  C10. When \<open>printToStreamF\<close> ends in an error, with arguments that render, the error is
  one of the three template errors, at a percent sign (the lone last one, the one of the
  illegal specifier, or the one of the placeholder without an argument) before which the
  template is well-formed. The stream is then as \<open>printToStreamF\<close> leaves it for the
  template up to that percent sign, with the arguments of its placeholders: it holds what it held
  before, followed by what was written. Nothing written is taken back. On a stream in
  the state of a new one, and with arguments that leave that state as they found it, what
  was written is the text of the template up to the percent sign, with the rendered
  arguments in place of the placeholders.
\<close>

theorem error_keeps_partial_output:
  assumes "list_all2 (\<lambda>x r. toString [x] = Inr r) args rs"
    and "printToStreamF sink t args = (sink', Some e)"
  shows "\<exists>pre ts rest. t = pre @ CHR ''%'' # rest \<and> tokens pre = Some ts
           \<and> placeholders ts \<le> length args
           \<and> printToStreamF sink pre (take (placeholders ts) args) = (sink', None)
           \<and> (\<exists>out. fst sink' = fst sink @ out)
           \<and> (snd sink = ios_init
                \<and> list_all2 (\<lambda>x r. printToStream stringstream [x] = ((r, ios_init), None)) args rs
                \<longrightarrow> sink' = (fst sink @ expand ts 0 rs, ios_init))
           \<and> (e = invalid_argument unmatched_percent \<and> rest = []
                \<or> e = invalid_argument illegal_specifier
                    \<and> (\<exists>d r. rest = d # r \<and> d \<noteq> CHR ''%'' \<and> d \<noteq> CHR ''s'')
                \<or> e = invalid_argument more_arguments
                    \<and> (\<exists>r. rest = CHR ''s'' # r) \<and> placeholders ts = length args)"
proof -
  obtain pre ts rest where r: "reaches t (length args) pre ts rest"
    and st: "stops rest (placeholders ts = length args)"
    using first_stop by blast
  from F_reaches [OF returned_all [OF assms(1)] r st, of sink] assms(2)
  have res: "printToStreamF sink pre (take (placeholders ts) args) = (sink', None)"
    "\<exists>out. fst sink' = fst sink @ out" "stop_outcome rest = Some e"
    by (auto simp: printToStreamF_def)
  have plain: "sink' = (fst sink @ expand ts 0 rs, ios_init)"
    if "snd sink = ios_init"
      "list_all2 (\<lambda>x r. printToStream stringstream [x] = ((r, ios_init), None)) args rs"
  proof -
    from that(1) have "sink = (fst sink, ios_init)" by (cases sink) simp
    with F_reaches_plain [OF rendered_all [OF that(2)] r st, of "fst sink"] assms(2)
    show ?thesis by (simp add: printToStreamF_def)
  qed
  from r have t: "t = pre @ rest" "tokens pre = Some ts" "placeholders ts \<le> length args"
    by (simp_all add: reaches_def)
  from res(3) st obtain q where q: "rest = CHR ''%'' # q"
    by (cases rest rule: stop_outcome.cases) auto
  from res(3) st q
  have "e = invalid_argument unmatched_percent \<and> q = []
      \<or> e = invalid_argument illegal_specifier
          \<and> (\<exists>d r. q = d # r \<and> d \<noteq> CHR ''%'' \<and> d \<noteq> CHR ''s'')
      \<or> e = invalid_argument more_arguments
          \<and> (\<exists>r. q = CHR ''s'' # r) \<and> placeholders ts = length args"
    by (cases q) (auto split: if_splits)
  with t q res(1,2) plain show ?thesis by blast
qed

theorem error_keeps_partial_output_witness:
  "list_all2 (\<lambda>x r. toString [x] = Inr r) [Obj (Some hex), Obj (Some int_255)] [[], ''255'']
   \<and> printToStreamF (''out: '', ios_init) ''%s|%s%q'' [Obj (Some hex), Obj (Some int_255)]
       = ((''out: |ff'', ios_init\<lparr>basefield := 16\<rparr>), Some (invalid_argument illegal_specifier))
   \<and> (\<exists>pre ts rest. ''%s|%s%q'' = pre @ CHR ''%'' # rest \<and> tokens pre = Some ts
         \<and> printToStreamF (''out: '', ios_init) pre (take (placeholders ts) [Obj (Some hex), Obj (Some int_255)])
             = ((''out: |ff'', ios_init\<lparr>basefield := 16\<rparr>), None)
         \<and> (\<exists>d r. rest = d # r \<and> d \<noteq> CHR ''%'' \<and> d \<noteq> CHR ''s''))
   \<and> list_all2 (\<lambda>x r. printToStream stringstream [x] = ((r, ios_init), None))
        [Obj (Some (formatted ''1'')), Obj (Some (formatted ''2''))] [''1'', ''2'']
   \<and> printToStreamF (''out: '', ios_init) ''a%sb%%c%qd''
        [Obj (Some (formatted ''1'')), Obj (Some (formatted ''2''))]
       = ((''out: a1b%c'', ios_init), Some (invalid_argument illegal_specifier))
   \<and> (\<exists>pre ts rest. ''a%sb%%c%qd'' = pre @ CHR ''%'' # rest \<and> tokens pre = Some ts
         \<and> ''out: a1b%c'' = ''out: '' @ expand ts 0 [''1'', ''2''])"
proof -
  have r: "list_all2 (\<lambda>x r. toString [x] = Inr r) [Obj (Some hex), Obj (Some int_255)] [[], ''255'']"
    by (simp add: render_simps)
  have p: "printToStreamF (''out: '', ios_init) ''%s|%s%q'' [Obj (Some hex), Obj (Some int_255)]
       = ((''out: |ff'', ios_init\<lparr>basefield := 16\<rparr>), Some (invalid_argument illegal_specifier))"
    by (simp add: interpret_simps)
  from error_keeps_partial_output [OF r p] obtain pre ts rest where
    d: "''%s|%s%q'' = pre @ CHR ''%'' # rest" "tokens pre = Some ts"
      "printToStreamF (''out: '', ios_init) pre (take (placeholders ts) [Obj (Some hex), Obj (Some int_255)])
             = ((''out: |ff'', ios_init\<lparr>basefield := 16\<rparr>), None)"
    and e: "invalid_argument illegal_specifier = invalid_argument unmatched_percent \<and> rest = []
        \<or> invalid_argument illegal_specifier = invalid_argument illegal_specifier
            \<and> (\<exists>d r. rest = d # r \<and> d \<noteq> CHR ''%'' \<and> d \<noteq> CHR ''s'')
        \<or> invalid_argument illegal_specifier = invalid_argument more_arguments
            \<and> (\<exists>r. rest = CHR ''s'' # r) \<and> placeholders ts = length [Obj (Some hex), Obj (Some int_255)]"
    by blast
  from e have "\<exists>d r. rest = d # r \<and> d \<noteq> CHR ''%'' \<and> d \<noteq> CHR ''s''"
    by (simp add: messages_distinct)
  with d have first: "\<exists>pre ts rest. ''%s|%s%q'' = pre @ CHR ''%'' # rest \<and> tokens pre = Some ts
         \<and> printToStreamF (''out: '', ios_init) pre (take (placeholders ts) [Obj (Some hex), Obj (Some int_255)])
             = ((''out: |ff'', ios_init\<lparr>basefield := 16\<rparr>), None)
         \<and> (\<exists>d r. rest = d # r \<and> d \<noteq> CHR ''%'' \<and> d \<noteq> CHR ''s'')"
    by blast
  have q2: "list_all2 (\<lambda>x r. printToStream stringstream [x] = ((r, ios_init), None))
        [Obj (Some (formatted ''1'')), Obj (Some (formatted ''2''))] [''1'', ''2'']"
    by (simp add: render_simps)
  have r2: "list_all2 (\<lambda>x r. toString [x] = Inr r)
        [Obj (Some (formatted ''1'')), Obj (Some (formatted ''2''))] [''1'', ''2'']"
    by (simp add: render_simps)
  have p2: "printToStreamF (''out: '', ios_init) ''a%sb%%c%qd''
        [Obj (Some (formatted ''1'')), Obj (Some (formatted ''2''))]
       = ((''out: a1b%c'', ios_init), Some (invalid_argument illegal_specifier))"
    by (simp add: interpret_simps)
  from error_keeps_partial_output [OF r2 p2] obtain pre2 ts2 rest2 where
    d2: "''a%sb%%c%qd'' = pre2 @ CHR ''%'' # rest2" "tokens pre2 = Some ts2"
    and i2: "snd (''out: '', ios_init) = ios_init
        \<and> list_all2 (\<lambda>x r. printToStream stringstream [x] = ((r, ios_init), None))
             [Obj (Some (formatted ''1'')), Obj (Some (formatted ''2''))] [''1'', ''2'']
        \<longrightarrow> ((''out: a1b%c'', ios_init) :: ostream)
              = (fst ((''out: '', ios_init) :: ostream) @ expand ts2 0 [''1'', ''2''], ios_init)"
    by blast
  from i2 q2 have "''out: a1b%c'' = ''out: '' @ expand ts2 0 [''1'', ''2'']"
    by simp
  with d2 have second: "\<exists>pre ts rest. ''a%sb%%c%qd'' = pre @ CHR ''%'' # rest \<and> tokens pre = Some ts
         \<and> ''out: a1b%c'' = ''out: '' @ expand ts 0 [''1'', ''2'']"
    by blast
  from r p first q2 p2 second show ?thesis by blast
qed

end
